theory Spec2Isabelle
  imports Main "HOL-Library.Word" "HOL-Library.Multiset"
begin

unbundle bit_operations_syntax

section \<open>Data model\<close>

text \<open>
  The move generator of \<^verbatim>\<open>src/movegen.cpp\<close> is embedded function by function. Template
  parameters (variant, colour, generation kind, piece type, \<open>Checks\<close>, \<open>Chess960\<close>) become
  ordinary arguments. All variant sections (\<^verbatim>\<open>#ifdef ANTI\<close>, \<^verbatim>\<open>ATOMIC\<close>, ...) are taken as
  compiled in. The output buffer \<^verbatim>\<open>ExtMove* moveList\<close> is the list of moves written, in the
  order they are written; only the \<open>move\<close> component of an \<^verbatim>\<open>ExtMove\<close> is written by the
  generator.
\<close>

type_synonym square = int
type_synonym bitboard = "64 word"

datatype color = WHITE | BLACK

datatype piecetype = NO_PIECE_TYPE | PAWN | KNIGHT | BISHOP | ROOK | QUEEN | KING | ALL_PIECES

type_synonym piece = "color \<times> piecetype"

datatype movetype = NORMAL | PROMOTION | ENPASSANT | CASTLING | DROP

datatype gentype = CAPTURES | QUIETS | QUIET_CHECKS | EVASIONS | NON_EVASIONS | LEGAL

datatype variant = CHESS_VARIANT | ANTI_VARIANT | ATOMIC_VARIANT | CRAZYHOUSE_VARIANT
  | HORDE_VARIANT | LOSERS_VARIANT | RACE_VARIANT | RELAY_VARIANT

datatype castlingright = WHITE_OO | WHITE_OOO | BLACK_OO | BLACK_OOO

datatype castlingside = KING_SIDE | QUEEN_SIDE

datatype direction = NORTH | EAST | SOUTH | WEST
  | NORTH_EAST | SOUTH_EAST | SOUTH_WEST | NORTH_WEST

text \<open>Failures of the source that are not a returned move list: a failed \<^verbatim>\<open>assert\<close>, and an
  index outside the board handed to a table or position query.\<close>

datatype error = AssertFailed | OutOfBounds

text \<open>Modelled from the spec: the move value of \<^verbatim>\<open>types.h\<close>, which is not part of the sources.
  A move carries (from, to, kind, promoted piece); a drop carries its square and piece. The
  constructors stand for \<^verbatim>\<open>make_move\<close>, \<^verbatim>\<open>make<PROMOTION>\<close>, \<^verbatim>\<open>make<ENPASSANT>\<close>,
  \<^verbatim>\<open>make<CASTLING>\<close> and \<^verbatim>\<open>make_drop\<close>.\<close>

datatype move =
    make_move square square
  | make_PROMOTION square square piecetype
  | make_ENPASSANT square square
  | make_CASTLING square square
  | make_drop square piece

definition SQ_NONE :: square where "SQ_NONE = 64"
definition SQ_C1 :: square where "SQ_C1 = 2"
definition SQ_G1 :: square where "SQ_G1 = 6"

fun from_sq :: "move \<Rightarrow> square" where
  "from_sq (make_move f t) = f"
| "from_sq (make_PROMOTION f t pt) = f"
| "from_sq (make_ENPASSANT f t) = f"
| "from_sq (make_CASTLING f t) = f"
| "from_sq (make_drop t pc) = SQ_NONE"

fun to_sq :: "move \<Rightarrow> square" where
  "to_sq (make_move f t) = t"
| "to_sq (make_PROMOTION f t pt) = t"
| "to_sq (make_ENPASSANT f t) = t"
| "to_sq (make_CASTLING f t) = t"
| "to_sq (make_drop t pc) = t"

fun type_of :: "move \<Rightarrow> movetype" where
  "type_of (make_move f t) = NORMAL"
| "type_of (make_PROMOTION f t pt) = PROMOTION"
| "type_of (make_ENPASSANT f t) = ENPASSANT"
| "type_of (make_CASTLING f t) = CASTLING"
| "type_of (make_drop t pc) = DROP"

fun promotion_type :: "move \<Rightarrow> piecetype" where
  "promotion_type (make_PROMOTION f t pt) = pt"
| "promotion_type m = NO_PIECE_TYPE"

fun opp :: "color \<Rightarrow> color" where
  "opp WHITE = BLACK"
| "opp BLACK = WHITE"

fun type_of_piece :: "piece option \<Rightarrow> piecetype" where
  "type_of_piece None = NO_PIECE_TYPE"
| "type_of_piece (Some (c, pt)) = pt"

definition make_piece :: "color \<Rightarrow> piecetype \<Rightarrow> piece" where
  "make_piece c pt = (c, pt)"

text \<open>The square offsets of the direction constants (\<^verbatim>\<open>NORTH = 8\<close>, \<^verbatim>\<open>EAST = 1\<close>, ...).\<close>

fun delta :: "direction \<Rightarrow> int" where
  "delta NORTH = 8"
| "delta EAST = 1"
| "delta SOUTH = -8"
| "delta WEST = -1"
| "delta NORTH_EAST = 9"
| "delta SOUTH_EAST = -7"
| "delta SOUTH_WEST = -9"
| "delta NORTH_WEST = 7"

section \<open>Bitboard primitives\<close>

text \<open>Modelled from the spec: the bitboard primitives of \<^verbatim>\<open>bitboard.h\<close> and \<^verbatim>\<open>types.h\<close>
  (64-bit masks, one bit per square, square \<open>s\<close> at bit \<open>s\<close>; directional shifts that mask
  off wrap-around; rank and file masks; \<^verbatim>\<open>pop_lsb\<close>, \<^verbatim>\<open>lsb\<close>, \<^verbatim>\<open>more_than_one\<close>).\<close>

definition square_bb :: "square \<Rightarrow> bitboard" where
  "square_bb s = (if 0 \<le> s \<and> s < 64 then push_bit (nat s) 1 else 0)"

definition Rank1BB :: bitboard where "Rank1BB = 0xFF"
definition Rank2BB :: bitboard where "Rank2BB = 0xFF00"
definition Rank3BB :: bitboard where "Rank3BB = 0xFF0000"
definition Rank6BB :: bitboard where "Rank6BB = 0xFF0000000000"
definition Rank7BB :: bitboard where "Rank7BB = 0xFF000000000000"
definition Rank8BB :: bitboard where "Rank8BB = 0xFF00000000000000"
definition FileABB :: bitboard where "FileABB = 0x0101010101010101"
definition FileHBB :: bitboard where "FileHBB = 0x8080808080808080"

definition file_of :: "square \<Rightarrow> int" where "file_of s = s mod 8"
definition rank_of :: "square \<Rightarrow> int" where "rank_of s = s div 8"

definition file_bb :: "square \<Rightarrow> bitboard" where
  "file_bb s = push_bit (nat (file_of s)) FileABB"

definition relative_square :: "color \<Rightarrow> square \<Rightarrow> square" where
  "relative_square c s = (if c = WHITE then s else s XOR 56)"

definition relative_rank :: "color \<Rightarrow> int \<Rightarrow> int" where
  "relative_rank c r = (if c = WHITE then r else r XOR 7)"

definition RANK_6 :: int where "RANK_6 = 5"

fun shift :: "direction \<Rightarrow> bitboard \<Rightarrow> bitboard" where
  "shift NORTH b = push_bit 8 b"
| "shift SOUTH b = drop_bit 8 b"
| "shift NORTH_EAST b = push_bit 9 (b AND NOT FileHBB)"
| "shift SOUTH_EAST b = drop_bit 7 (b AND NOT FileHBB)"
| "shift NORTH_WEST b = push_bit 7 (b AND NOT FileABB)"
| "shift SOUTH_WEST b = drop_bit 9 (b AND NOT FileABB)"
| "shift EAST b = 0"
| "shift WEST b = 0"

text \<open>The squares a loop \<^verbatim>\<open>while (b) { s = pop_lsb(&b); ... }\<close> visits, in its order
  (least significant bit first).\<close>

definition pop_lsb_all :: "bitboard \<Rightarrow> square list" where
  "pop_lsb_all b = map int (filter (bit b) [0..<64])"

definition lsb :: "bitboard \<Rightarrow> square" where
  "lsb b = (case pop_lsb_all b of [] \<Rightarrow> SQ_NONE | s # ss \<Rightarrow> s)"

definition more_than_one :: "bitboard \<Rightarrow> bool" where
  "more_than_one b = (b AND (b - 1) \<noteq> 0)"

text \<open>The test \<^verbatim>\<open>b & s\<close> of a bitboard against a square.\<close>

definition has_square :: "bitboard \<Rightarrow> square \<Rightarrow> bool" where
  "has_square b s = (b AND square_bb s \<noteq> 0)"

section \<open>The position contract\<close>

text \<open>
  \<^verbatim>\<open>Position\<close> and the attack tables are collaborators outside the sources. The generator
  only queries them, so a position is the record of the answers to the queries the
  generator makes; theorems quantify over all such records and state the invariants of a
  position they rely on as hypotheses. The process-wide tables (\<^verbatim>\<open>PseudoAttacks\<close>,
  \<^verbatim>\<open>LineBB\<close>, \<^verbatim>\<open>between_bb\<close>, \<^verbatim>\<open>passed_pawn_mask\<close>, \<^verbatim>\<open>attacks_bb<ROOK>\<close>) are carried in the
  same record. The piece list \<^verbatim>\<open>squares<Pt>(c)\<close> is the list of its entries before the
  \<^verbatim>\<open>SQ_NONE\<close> terminator.
\<close>

record position =
  side_to_move :: color
  pieces :: bitboard
  pieces_c :: "color \<Rightarrow> bitboard"
  pieces_pt :: "piecetype \<Rightarrow> bitboard"
  square_of :: "piecetype \<Rightarrow> color \<Rightarrow> square"
  squares :: "piecetype \<Rightarrow> color \<Rightarrow> square list"
  piece_on :: "square \<Rightarrow> piece option"
  attackers_to_occ :: "square \<Rightarrow> bitboard \<Rightarrow> bitboard"
  attacks_from :: "piecetype \<Rightarrow> square \<Rightarrow> bitboard"
  attacks_from_pawn :: "square \<Rightarrow> color \<Rightarrow> bitboard"
  checkers :: bitboard
  check_squares :: "piecetype \<Rightarrow> bitboard"
  discovered_check_candidates :: bitboard
  pinned_pieces :: "color \<Rightarrow> bitboard"
  ep_square :: square
  can_castle :: "castlingright \<Rightarrow> bool"
  can_castle_c :: "color \<Rightarrow> bool"
  castling_impeded :: "castlingright \<Rightarrow> bool"
  castling_rook_square :: "castlingright \<Rightarrow> square"
  castling_king_square :: "castlingright \<Rightarrow> square"
  is_chess960 :: bool
  is_anti :: bool
  is_atomic :: bool
  is_house :: bool
  is_horde :: bool
  is_losers :: bool
  is_race :: bool
  is_relay :: bool
  is_variant_end :: bool
  can_capture :: bool
  can_capture_losers :: bool
  count_in_hand :: "piecetype \<Rightarrow> color \<Rightarrow> nat"
  gives_check :: "move \<Rightarrow> bool"
  legal :: "move \<Rightarrow> bool"
  capture :: "move \<Rightarrow> bool"
  PseudoAttacks :: "piecetype \<Rightarrow> square \<Rightarrow> bitboard"
  LineBB :: "square \<Rightarrow> square \<Rightarrow> bitboard"
  between_bb :: "square \<Rightarrow> square \<Rightarrow> bitboard"
  passed_pawn_mask :: "color \<Rightarrow> square \<Rightarrow> bitboard"
  attacks_bb_ROOK :: "square \<Rightarrow> bitboard \<Rightarrow> bitboard"

text \<open>The overloads of \<^verbatim>\<open>pieces\<close> and \<^verbatim>\<open>attackers_to\<close> that \<^verbatim>\<open>position.h\<close> derives from
  the others.\<close>

definition pieces_cpt :: "position \<Rightarrow> color \<Rightarrow> piecetype \<Rightarrow> bitboard" where
  "pieces_cpt pos c pt = pieces_c pos c AND pieces_pt pos pt"

definition pieces_pt2 :: "position \<Rightarrow> piecetype \<Rightarrow> piecetype \<Rightarrow> bitboard" where
  "pieces_pt2 pos pt1 pt2 = pieces_pt pos pt1 OR pieces_pt pos pt2"

definition pieces_cpt2 :: "position \<Rightarrow> color \<Rightarrow> piecetype \<Rightarrow> piecetype \<Rightarrow> bitboard" where
  "pieces_cpt2 pos c pt1 pt2 = pieces_c pos c AND (pieces_pt pos pt1 OR pieces_pt pos pt2)"

definition attackers_to :: "position \<Rightarrow> square \<Rightarrow> bitboard" where
  "attackers_to pos s = attackers_to_occ pos s (pieces pos)"

section \<open>Castling\<close>

text \<open>The step of the safety scan: \<^verbatim>\<open>const Square K = Chess960 ? kto > kfrom ? WEST : EAST
  : KingSide ? WEST : EAST\<close>.\<close>

definition scan_direction :: "bool \<Rightarrow> bool \<Rightarrow> square \<Rightarrow> square \<Rightarrow> direction" where
  "scan_direction Chess960 KingSide kto kfrom =
    (if Chess960 then (if kto > kfrom then WEST else EAST)
     else (if KingSide then WEST else EAST))"

text \<open>The squares from \<open>kto\<close> back toward \<open>kfrom\<close>, exclusive of \<open>kfrom\<close>, in the order
  of the walk; this follows the wording of the specification, for comparison with the scan.\<close>

definition scan_squares :: "square \<Rightarrow> square \<Rightarrow> square list" where
  "scan_squares kto kfrom = (if kto > kfrom then rev [kfrom + 1..kto] else [kto..kfrom - 1])"

text \<open>The test the scan makes at a square \<open>s\<close>: in Atomic chess an attacked square is
  tolerated next to the enemy king; otherwise any enemy attacker abandons the right.\<close>

definition scan_attacked :: "variant \<Rightarrow> position \<Rightarrow> color \<Rightarrow> square \<Rightarrow> square \<Rightarrow> bool" where
  "scan_attacked V pos us kfrom s =
    (if V = ATOMIC_VARIANT then
       attacks_from pos KING (square_of pos KING (opp us)) AND square_bb s = 0
       \<and> attackers_to_occ pos s (pieces pos XOR square_bb kfrom) AND pieces_c pos (opp us) \<noteq> 0
     else attackers_to pos s AND pieces_c pos (opp us) \<noteq> 0)"

text \<open>The safety scan \<^verbatim>\<open>for (Square s = kto; s != kfrom; s += K)\<close> of
  \<^verbatim>\<open>generate_castling\<close>, entered only outside Antichess. It yields \<open>Inr True\<close> when the loop
  runs to \<open>kfrom\<close>, \<open>Inr False\<close> when the function returns from inside the loop. A square
  off the board would index the attack tables out of range.\<close>

function castling_scan ::
  "variant \<Rightarrow> position \<Rightarrow> color \<Rightarrow> square \<Rightarrow> direction \<Rightarrow> square \<Rightarrow> error + bool" where
  "castling_scan V pos us kfrom K s =
     (if s = kfrom then Inr True
      else if s < 0 \<or> 63 < s then Inl OutOfBounds
      else if scan_attacked V pos us kfrom s then Inr False
      else castling_scan V pos us kfrom K (s + delta K))"
  by pat_completeness auto
termination
  by (relation "measure (\<lambda>(V, pos, us, kfrom, K, s).
        if 0 < delta K then nat (64 - s) else nat (s + 1))")
     (auto, (case_tac K; simp)+)

declare castling_scan.simps [simp del]

definition generate_castling ::
  "variant \<Rightarrow> castlingright \<Rightarrow> bool \<Rightarrow> bool \<Rightarrow> position \<Rightarrow> color \<Rightarrow> error + move list" where
  "generate_castling V Cr Checks Chess960 pos us =
    (let KingSide = (Cr = WHITE_OO \<or> Cr = BLACK_OO) in
     if castling_impeded pos Cr \<or> \<not> can_castle pos Cr then Inr []
     else
       let kfrom = (if V = ANTI_VARIANT then castling_king_square pos Cr
                    else square_of pos KING us);
           rfrom = castling_rook_square pos Cr;
           kto = relative_square us (if KingSide then SQ_G1 else SQ_C1);
           K = scan_direction Chess960 KingSide kto kfrom;
           m = make_CASTLING kfrom rfrom;
           emit = (if Checks \<and> \<not> gives_check pos m then Inr [] else Inr [m])
       in
       if checkers pos \<noteq> 0 then Inl AssertFailed
       else if V \<noteq> ANTI_VARIANT then
         (case castling_scan V pos us kfrom K kto of
            Inl e \<Rightarrow> Inl e
          | Inr False \<Rightarrow> Inr []
          | Inr True \<Rightarrow>
              if Chess960
                 \<and> attacks_bb_ROOK pos kto (pieces pos XOR square_bb rfrom)
                     AND pieces_cpt2 pos (opp us) ROOK QUEEN \<noteq> 0
                 \<and> \<not> (V = ATOMIC_VARIANT
                        \<and> attacks_from pos KING (square_of pos KING (opp us)) AND square_bb kto \<noteq> 0)
              then Inr []
              else emit)
       else emit)"

section \<open>Promotions and drops\<close>

definition make_promotions ::
  "variant \<Rightarrow> gentype \<Rightarrow> direction \<Rightarrow> position \<Rightarrow> square \<Rightarrow> square \<Rightarrow> move list" where
  "make_promotions V T D pos to ksq =
    (if V = ANTI_VARIANT then
       (if T = QUIETS \<or> T = CAPTURES \<or> T = NON_EVASIONS
        then [make_PROMOTION (to - delta D) to QUEEN,
              make_PROMOTION (to - delta D) to ROOK,
              make_PROMOTION (to - delta D) to BISHOP,
              make_PROMOTION (to - delta D) to KNIGHT,
              make_PROMOTION (to - delta D) to KING]
        else [])
     else
       (if T = CAPTURES \<or> T = EVASIONS \<or> T = NON_EVASIONS
        then [make_PROMOTION (to - delta D) to QUEEN] else [])
       @ (if T = QUIETS \<or> T = EVASIONS \<or> T = NON_EVASIONS
          then [make_PROMOTION (to - delta D) to ROOK,
                make_PROMOTION (to - delta D) to BISHOP,
                make_PROMOTION (to - delta D) to KNIGHT]
          else [])
       @ (if T = QUIET_CHECKS \<and> PseudoAttacks pos KNIGHT to AND square_bb ksq \<noteq> 0
          then [make_PROMOTION (to - delta D) to KNIGHT] else []))"

definition generate_drops ::
  "color \<Rightarrow> piecetype \<Rightarrow> bool \<Rightarrow> position \<Rightarrow> bitboard \<Rightarrow> move list" where
  "generate_drops Us Pt Checks pos b =
    (if count_in_hand pos Pt Us \<noteq> 0
     then map (\<lambda>to. make_drop to (make_piece Us Pt))
            (pop_lsb_all (if Checks then b AND check_squares pos Pt else b))
     else [])"

section \<open>Pawn moves\<close>

text \<open>\<^verbatim>\<open>generate_pawn_moves\<close> is one function of three blocks; each block is a definition
  here, and \<open>push_empty\<close> is the value the local variable \<^verbatim>\<open>emptySquares\<close> holds when the
  first block is left (it is assigned there only when \<^verbatim>\<open>Type != CAPTURES\<close>).\<close>

definition Up :: "color \<Rightarrow> direction" where
  "Up Us = (if Us = WHITE then NORTH else SOUTH)"
definition Right :: "color \<Rightarrow> direction" where
  "Right Us = (if Us = WHITE then NORTH_EAST else SOUTH_WEST)"
definition Left :: "color \<Rightarrow> direction" where
  "Left Us = (if Us = WHITE then NORTH_WEST else SOUTH_EAST)"
definition TRank8BB :: "color \<Rightarrow> bitboard" where
  "TRank8BB Us = (if Us = WHITE then Rank8BB else Rank1BB)"
definition TRank7BB :: "color \<Rightarrow> bitboard" where
  "TRank7BB Us = (if Us = WHITE then Rank7BB else Rank2BB)"
definition TRank2BB :: "color \<Rightarrow> bitboard" where
  "TRank2BB Us = (if Us = WHITE then Rank2BB else Rank7BB)"
definition TRank3BB :: "color \<Rightarrow> bitboard" where
  "TRank3BB Us = (if Us = WHITE then Rank3BB else Rank6BB)"

definition pawnsOn7 :: "color \<Rightarrow> position \<Rightarrow> bitboard" where
  "pawnsOn7 Us pos = pieces_cpt pos Us PAWN AND TRank7BB Us"

definition pawnsNotOn7 :: "color \<Rightarrow> position \<Rightarrow> bitboard" where
  "pawnsNotOn7 Us pos = pieces_cpt pos Us PAWN AND NOT (TRank7BB Us)"

definition pawn_enemies :: "color \<Rightarrow> gentype \<Rightarrow> position \<Rightarrow> bitboard \<Rightarrow> bitboard" where
  "pawn_enemies Us T pos target =
    (if T = EVASIONS then pieces_c pos (opp Us) AND target
     else if T = CAPTURES then target else pieces_c pos (opp Us))"

definition push_empty :: "variant \<Rightarrow> gentype \<Rightarrow> position \<Rightarrow> bitboard \<Rightarrow> bitboard" where
  "push_empty V T pos target =
    (let emptySquares = (if T = QUIETS \<or> T = QUIET_CHECKS then target else NOT (pieces pos))
     in if V = ANTI_VARIANT then emptySquares AND target else emptySquares)"

text \<open>Single and double pawn pushes, no promotions.\<close>

definition pawn_pushes ::
  "variant \<Rightarrow> color \<Rightarrow> gentype \<Rightarrow> position \<Rightarrow> bitboard \<Rightarrow> move list" where
  "pawn_pushes V Us T pos target =
    (if T \<noteq> CAPTURES then
       let emptySquares = push_empty V T pos target;
           b1 = shift (Up Us) (pawnsNotOn7 Us pos) AND emptySquares;
           b2 = shift (Up Us) (b1 AND TRank3BB Us) AND emptySquares;
           b2 = (if V = HORDE_VARIANT
                 then shift (Up Us) (b1 AND (TRank2BB Us OR TRank3BB Us)) AND emptySquares
                 else b2);
           b1 = (if V = LOSERS_VARIANT then b1 AND target else b1);
           b2 = (if V = LOSERS_VARIANT then b2 AND target else b2);
           b1 = (if T = EVASIONS then b1 AND target else b1);
           b2 = (if T = EVASIONS then b2 AND target else b2);
           ksq = square_of pos KING (opp Us);
           b1 = (if T = QUIET_CHECKS then b1 AND attacks_from_pawn pos ksq (opp Us) else b1);
           b2 = (if T = QUIET_CHECKS then b2 AND attacks_from_pawn pos ksq (opp Us) else b2);
           dcCandidates = discovered_check_candidates pos;
           dc1 = shift (Up Us) (pawnsNotOn7 Us pos AND dcCandidates) AND emptySquares
                   AND NOT (file_bb ksq);
           dc2 = shift (Up Us) (dc1 AND TRank3BB Us) AND emptySquares;
           b1 = (if T = QUIET_CHECKS \<and> pawnsNotOn7 Us pos AND dcCandidates \<noteq> 0
                 then b1 OR dc1 else b1);
           b2 = (if T = QUIET_CHECKS \<and> pawnsNotOn7 Us pos AND dcCandidates \<noteq> 0
                 then b2 OR dc2 else b2)
       in map (\<lambda>to. make_move (to - delta (Up Us)) to) (pop_lsb_all b1)
        @ map (\<lambda>to. make_move (to - delta (Up Us) - delta (Up Us)) to) (pop_lsb_all b2)
     else [])"

text \<open>Promotions and underpromotions.\<close>

definition promo_empty :: "variant \<Rightarrow> gentype \<Rightarrow> position \<Rightarrow> bitboard \<Rightarrow> bitboard" where
  "promo_empty V T pos target =
    (let emptySquares =
           (if T = CAPTURES then
              (if V = ATOMIC_VARIANT \<and> checkers pos \<noteq> 0
               then NOT (pieces pos) AND target else NOT (pieces pos))
            else push_empty V T pos target);
         emptySquares = (if V = ANTI_VARIANT then emptySquares AND target else emptySquares);
         emptySquares = (if V = LOSERS_VARIANT then emptySquares AND target else emptySquares)
     in if T = EVASIONS then emptySquares AND target else emptySquares)"

definition pawn_promotions ::
  "variant \<Rightarrow> color \<Rightarrow> gentype \<Rightarrow> position \<Rightarrow> bitboard \<Rightarrow> move list" where
  "pawn_promotions V Us T pos target =
    (if pawnsOn7 Us pos \<noteq> 0 \<and> (T \<noteq> EVASIONS \<or> target AND TRank8BB Us \<noteq> 0) then
       let emptySquares = promo_empty V T pos target;
           enemies = pawn_enemies Us T pos target;
           b1 = shift (Right Us) (pawnsOn7 Us pos) AND enemies;
           b2 = shift (Left Us) (pawnsOn7 Us pos) AND enemies;
           b3 = shift (Up Us) (pawnsOn7 Us pos) AND emptySquares;
           ksq = square_of pos KING (opp Us)
       in concat (map (\<lambda>to. make_promotions V T (Right Us) pos to ksq) (pop_lsb_all b1))
        @ concat (map (\<lambda>to. make_promotions V T (Left Us) pos to ksq) (pop_lsb_all b2))
        @ concat (map (\<lambda>to. make_promotions V T (Up Us) pos to ksq) (pop_lsb_all b3))
     else [])"

text \<open>Standard and en-passant captures, with the two assertions of the en-passant part.\<close>

definition pawn_captures ::
  "color \<Rightarrow> gentype \<Rightarrow> position \<Rightarrow> bitboard \<Rightarrow> error + move list" where
  "pawn_captures Us T pos target =
    (if T = CAPTURES \<or> T = EVASIONS \<or> T = NON_EVASIONS then
       let enemies = pawn_enemies Us T pos target;
           b1 = shift (Right Us) (pawnsNotOn7 Us pos) AND enemies;
           b2 = shift (Left Us) (pawnsNotOn7 Us pos) AND enemies;
           std = map (\<lambda>to. make_move (to - delta (Right Us)) to) (pop_lsb_all b1)
               @ map (\<lambda>to. make_move (to - delta (Left Us)) to) (pop_lsb_all b2)
       in
       if ep_square pos \<noteq> SQ_NONE then
         (if rank_of (ep_square pos) \<noteq> relative_rank Us RANK_6 then Inl AssertFailed
          else if T = EVASIONS \<and> target AND square_bb (ep_square pos - delta (Up Us)) = 0
          then Inr std
          else
            let b1 = pawnsNotOn7 Us pos AND attacks_from_pawn pos (ep_square pos) (opp Us)
            in if b1 = 0 then Inl AssertFailed
               else Inr (std @ map (\<lambda>from. make_ENPASSANT from (ep_square pos)) (pop_lsb_all b1)))
       else Inr std
     else Inr [])"

definition generate_pawn_moves ::
  "variant \<Rightarrow> color \<Rightarrow> gentype \<Rightarrow> position \<Rightarrow> bitboard \<Rightarrow> error + move list" where
  "generate_pawn_moves V Us T pos target =
    (case pawn_captures Us T pos target of
       Inl e \<Rightarrow> Inl e
     | Inr caps \<Rightarrow>
         Inr (pawn_pushes V Us T pos target @ pawn_promotions V Us T pos target @ caps))"

section \<open>Piece moves\<close>

text \<open>The relayed attacks of Relay chess, as both \<^verbatim>\<open>generate_moves\<close> and the king part of
  \<^verbatim>\<open>generate_all\<close> add them (the king part has no king relay).\<close>

definition relay_attacks ::
  "bool \<Rightarrow> position \<Rightarrow> color \<Rightarrow> square \<Rightarrow> bitboard \<Rightarrow> bitboard" where
  "relay_attacks with_king pos us from target =
    (let defenders = attackers_to pos from AND pieces_c pos us in
       (if defenders AND pieces_pt pos KNIGHT \<noteq> 0
        then attacks_from pos KNIGHT from AND target else 0)
       OR (if defenders AND pieces_pt2 pos QUEEN BISHOP \<noteq> 0
        then attacks_from pos BISHOP from AND target else 0)
       OR (if defenders AND pieces_pt2 pos QUEEN ROOK \<noteq> 0
        then attacks_from pos ROOK from AND target else 0)
       OR (if with_king \<and> defenders AND pieces_pt pos KING \<noteq> 0
        then attacks_from pos KING from AND target else 0))"

definition moves_from ::
  "variant \<Rightarrow> piecetype \<Rightarrow> bool \<Rightarrow> position \<Rightarrow> color \<Rightarrow> bitboard \<Rightarrow> square \<Rightarrow> move list" where
  "moves_from V Pt Checks pos us target from =
    (if Checks \<and> (Pt = BISHOP \<or> Pt = ROOK \<or> Pt = QUEEN)
        \<and> PseudoAttacks pos Pt from AND target AND check_squares pos Pt = 0 then []
     else if Checks \<and> discovered_check_candidates pos AND square_bb from \<noteq> 0 then []
     else
       let b = attacks_from pos Pt from AND target;
           b = (if V = RELAY_VARIANT then b OR relay_attacks True pos us from target else b);
           b = (if Checks then b AND check_squares pos Pt else b)
       in map (\<lambda>to. make_move from to) (pop_lsb_all b))"

definition generate_moves ::
  "variant \<Rightarrow> piecetype \<Rightarrow> bool \<Rightarrow> position \<Rightarrow> color \<Rightarrow> bitboard \<Rightarrow> move list" where
  "generate_moves V Pt Checks pos us target =
     concat (map (moves_from V Pt Checks pos us target) (squares pos Pt us))"

section \<open>All moves of one kind\<close>

definition MakeCastling :: "color \<Rightarrow> castlingside \<Rightarrow> castlingright" where
  "MakeCastling c side =
    (if c = WHITE then (if side = QUEEN_SIDE then WHITE_OOO else WHITE_OO)
     else (if side = QUEEN_SIDE then BLACK_OOO else BLACK_OO))"

text \<open>The squares offered to the drops: the local \<^verbatim>\<open>b\<close> of the Crazyhouse block of
  \<^verbatim>\<open>generate_all\<close>.\<close>

definition drop_mask :: "color \<Rightarrow> gentype \<Rightarrow> position \<Rightarrow> bitboard \<Rightarrow> bitboard" where
  "drop_mask Us T pos target =
     (if T = EVASIONS then target XOR checkers pos
      else if T = NON_EVASIONS then target XOR pieces_c pos (opp Us) else target)"

definition all_drops :: "variant \<Rightarrow> color \<Rightarrow> gentype \<Rightarrow> position \<Rightarrow> bitboard \<Rightarrow> move list" where
  "all_drops V Us T pos target =
    (if V = CRAZYHOUSE_VARIANT \<and> T \<noteq> CAPTURES \<and> count_in_hand pos ALL_PIECES Us \<noteq> 0 then
       let Checks = (T = QUIET_CHECKS);
           b = drop_mask Us T pos target
       in generate_drops Us PAWN Checks pos (b AND NOT (Rank1BB OR Rank8BB))
        @ generate_drops Us KNIGHT Checks pos b
        @ generate_drops Us BISHOP Checks pos b
        @ generate_drops Us ROOK Checks pos b
        @ generate_drops Us QUEEN Checks pos b
     else [])"

text \<open>The king part of \<^verbatim>\<open>generate_all\<close>: all kings in Antichess, the one king otherwise
  (none for \<^verbatim>\<open>QUIET_CHECKS\<close> and \<^verbatim>\<open>EVASIONS\<close>).\<close>

definition king_moves :: "variant \<Rightarrow> color \<Rightarrow> gentype \<Rightarrow> position \<Rightarrow> bitboard \<Rightarrow> move list" where
  "king_moves V Us T pos target =
    (if V = ANTI_VARIANT then
       concat (map (\<lambda>ksq. map (\<lambda>to. make_move ksq to)
                             (pop_lsb_all (attacks_from pos KING ksq AND target)))
                   (pop_lsb_all (pieces_cpt pos Us KING)))
     else if T \<noteq> QUIET_CHECKS \<and> T \<noteq> EVASIONS then
       let ksq = square_of pos KING Us;
           b = attacks_from pos KING ksq AND target;
           b = (if V = RACE_VARIANT \<and> T = CAPTURES
                then b OR (attacks_from pos KING ksq AND passed_pawn_mask pos WHITE ksq
                             AND NOT (pieces pos))
                else b);
           b = (if V = RACE_VARIANT \<and> T = QUIETS
                then b AND NOT (passed_pawn_mask pos WHITE ksq) else b);
           b = (if V = RELAY_VARIANT then b OR relay_attacks False pos Us ksq target else b)
       in map (\<lambda>to. make_move ksq to) (pop_lsb_all b)
     else [])"

definition all_castling :: "variant \<Rightarrow> color \<Rightarrow> gentype \<Rightarrow> position \<Rightarrow> error + move list" where
  "all_castling V Us T pos =
    (if T \<noteq> CAPTURES \<and> T \<noteq> EVASIONS \<and> can_castle_c pos Us then
       (case generate_castling V (MakeCastling Us KING_SIDE) (T = QUIET_CHECKS)
               (is_chess960 pos) pos Us of
          Inl e \<Rightarrow> Inl e
        | Inr oo \<Rightarrow>
           (case generate_castling V (MakeCastling Us QUEEN_SIDE) (T = QUIET_CHECKS)
                   (is_chess960 pos) pos Us of
              Inl e \<Rightarrow> Inl e
            | Inr ooo \<Rightarrow> Inr (oo @ ooo)))
     else Inr [])"

definition generate_all ::
  "variant \<Rightarrow> color \<Rightarrow> gentype \<Rightarrow> position \<Rightarrow> bitboard \<Rightarrow> error + move list" where
  "generate_all V Us T pos target =
    (let Checks = (T = QUIET_CHECKS) in
     case generate_pawn_moves V Us T pos target of
       Inl e \<Rightarrow> Inl e
     | Inr pawns \<Rightarrow>
        let moveList = pawns
              @ generate_moves V KNIGHT Checks pos Us target
              @ generate_moves V BISHOP Checks pos Us target
              @ generate_moves V ROOK Checks pos Us target
              @ generate_moves V QUEEN Checks pos Us target
              @ all_drops V Us T pos target
              @ king_moves V Us T pos target
        in
        if V = ANTI_VARIANT \<and> can_capture pos then Inr moveList
        else if V = LOSERS_VARIANT \<and> can_capture_losers pos then Inr moveList
        else (case all_castling V Us T pos of
                Inl e \<Rightarrow> Inl e
              | Inr cs \<Rightarrow> Inr (moveList @ cs)))"

section \<open>The entry points\<close>

text \<open>The variant a top-level call selects, in the order the source tests the predicates.
  \<^verbatim>\<open>generate<EVASIONS>\<close> and \<^verbatim>\<open>generate<QUIET_CHECKS>\<close> test them in the same order after
  their early return for Antichess and Racing Kings.\<close>

definition variant_of :: "position \<Rightarrow> variant" where
  "variant_of pos =
    (if is_anti pos then ANTI_VARIANT
     else if is_atomic pos then ATOMIC_VARIANT
     else if is_house pos then CRAZYHOUSE_VARIANT
     else if is_horde pos then HORDE_VARIANT
     else if is_losers pos then LOSERS_VARIANT
     else if is_race pos then RACE_VARIANT
     else if is_relay pos then RELAY_VARIANT
     else CHESS_VARIANT)"

text \<open>\<^verbatim>\<open>generate<CAPTURES>\<close>, \<^verbatim>\<open>generate<QUIETS>\<close> and \<^verbatim>\<open>generate<NON_EVASIONS>\<close>.\<close>

definition generate_target :: "gentype \<Rightarrow> position \<Rightarrow> bitboard" where
  "generate_target T pos =
    (let us = side_to_move pos;
         target = (if T = CAPTURES then pieces_c pos (opp us)
                   else if T = QUIETS then NOT (pieces pos)
                   else if T = NON_EVASIONS then NOT (pieces_c pos us) else 0)
     in if is_anti pos then
          (if can_capture pos then target AND pieces_c pos (opp us) else target)
        else if is_atomic pos then
          (if T = CAPTURES
           then target AND NOT (attacks_from pos KING (square_of pos KING us)) else target)
        else if is_house pos then target
        else if is_horde pos then target
        else if is_losers pos then
          (if can_capture_losers pos then target AND pieces_c pos (opp us) else target)
        else target)"

definition generate :: "gentype \<Rightarrow> position \<Rightarrow> error + move list" where
  "generate T pos =
    (if \<not> (T = CAPTURES \<or> T = QUIETS \<or> T = NON_EVASIONS) then Inl AssertFailed
     else if checkers pos \<noteq> 0 then Inl AssertFailed
     else generate_all (variant_of pos) (side_to_move pos) T pos (generate_target T pos))"

text \<open>\<^verbatim>\<open>generate<QUIET_CHECKS>\<close>: the loop over the discovered-check candidates, then
  \<^verbatim>\<open>generate_all\<close>.\<close>

definition dc_moves :: "position \<Rightarrow> move list" where
  "dc_moves pos =
    concat (map (\<lambda>from.
        let pt = type_of_piece (piece_on pos from) in
        if pt = PAWN then []
        else
          let b = attacks_from pos pt from AND NOT (pieces pos);
              b = (if pt = KING
                   then b AND NOT (PseudoAttacks pos QUEEN
                                     (square_of pos KING (opp (side_to_move pos))))
                   else b)
          in map (\<lambda>to. make_move from to) (pop_lsb_all b))
      (pop_lsb_all (discovered_check_candidates pos)))"

definition generate_QUIET_CHECKS :: "position \<Rightarrow> error + move list" where
  "generate_QUIET_CHECKS pos =
    (if is_anti pos then Inr []
     else if is_race pos then Inr []
     else if checkers pos \<noteq> 0 then Inl AssertFailed
     else
       (case generate_all (variant_of pos) (side_to_move pos) QUIET_CHECKS pos
               (NOT (pieces pos)) of
          Inl e \<Rightarrow> Inl e
        | Inr ms \<Rightarrow> Inr (dc_moves pos @ ms)))"

text \<open>\<^verbatim>\<open>generate<EVASIONS>\<close>: the Atomic blast sub-pass, the king evasions, and the blocking
  evasions or captures of the single checking piece.\<close>

definition blast_target :: "position \<Rightarrow> bitboard" where
  "blast_target pos =
    (let us = side_to_move pos;
         ksq = square_of pos KING us;
         kingAttacks = attacks_from pos KING (square_of pos KING (opp us));
         target = fold (\<lambda>s t. t AND (attacks_from pos KING s OR square_bb s))
                    (pop_lsb_all (checkers pos)) (pieces_c pos (opp us));
         target = target OR kingAttacks
     in target AND pieces_c pos (opp us) AND NOT (attacks_from pos KING ksq))"

definition atomic_blast :: "position \<Rightarrow> error + move list" where
  "atomic_blast pos =
    (if is_atomic pos
     then generate_all ATOMIC_VARIANT (side_to_move pos) CAPTURES pos (blast_target pos)
     else Inr [])"

definition king_evasions :: "position \<Rightarrow> move list" where
  "king_evasions pos =
    (let us = side_to_move pos;
         ksq = square_of pos KING us;
         sliders = checkers pos AND NOT (pieces_pt2 pos KNIGHT PAWN);
         kingAttacks = (if is_atomic pos
                        then attacks_from pos KING (square_of pos KING (opp us)) else 0);
         sliderAttacks = fold (\<lambda>checksq a. a OR (LineBB pos checksq ksq XOR square_bb checksq))
                           (pop_lsb_all sliders) 0;
         b = (if is_atomic pos
              then attacks_from pos KING ksq AND NOT (pieces pos)
                     AND NOT (sliderAttacks AND NOT kingAttacks)
              else attacks_from pos KING ksq AND NOT (pieces_c pos us) AND NOT sliderAttacks);
         b = (if is_losers pos \<and> can_capture_losers pos then b AND pieces_c pos (opp us) else b)
     in map (\<lambda>to. make_move ksq to) (pop_lsb_all b))"

definition evasion_target :: "position \<Rightarrow> bitboard" where
  "evasion_target pos =
    (let us = side_to_move pos;
         ksq = square_of pos KING us;
         checksq = lsb (checkers pos);
         target = (if is_atomic pos then between_bb pos checksq ksq
                   else between_bb pos checksq ksq OR square_bb checksq)
     in if \<not> is_atomic pos \<and> \<not> is_house pos \<and> \<not> is_horde pos
           \<and> is_losers pos \<and> can_capture_losers pos
        then target AND pieces_c pos (opp us) else target)"

definition evasions_main :: "position \<Rightarrow> error + move list" where
  "evasions_main pos =
    (if more_than_one (checkers pos) then Inr (king_evasions pos)
     else
       (case generate_all (variant_of pos) (side_to_move pos) EVASIONS pos
               (evasion_target pos) of
          Inl e \<Rightarrow> Inl e
        | Inr ms \<Rightarrow> Inr (king_evasions pos @ ms)))"

definition generate_EVASIONS :: "position \<Rightarrow> error + move list" where
  "generate_EVASIONS pos =
    (if is_anti pos then Inr []
     else if is_race pos then Inr []
     else if checkers pos = 0 then Inl AssertFailed
     else
       (case atomic_blast pos of
          Inl e \<Rightarrow> Inl e
        | Inr blast \<Rightarrow>
           (case evasions_main pos of
              Inl e \<Rightarrow> Inl e
            | Inr ms \<Rightarrow> Inr (blast @ ms))))"

text \<open>\<^verbatim>\<open>generate<LEGAL>\<close>. The filter loop runs over the written range with \<open>cur\<close> an index
  into it; an illegal move is overwritten by the last move and the range shrinks by one.\<close>

definition rejects :: "position \<Rightarrow> bool \<Rightarrow> square \<Rightarrow> move \<Rightarrow> bool" where
  "rejects pos validate ksq m =
    (if (validate \<or> from_sq m = ksq \<or> type_of m = ENPASSANT)
        \<and> \<not> (is_house pos \<and> type_of m = DROP)
        \<and> \<not> legal pos m then True
     else if is_atomic pos \<and> capture pos m \<and> \<not> legal pos m then True
     else False)"

function legal_filter :: "position \<Rightarrow> bool \<Rightarrow> square \<Rightarrow> nat \<Rightarrow> move list \<Rightarrow> move list" where
  "legal_filter pos validate ksq cur moveList =
    (if cur < length moveList then
       (if rejects pos validate ksq (moveList ! cur)
        then legal_filter pos validate ksq cur (butlast (moveList[cur := last moveList]))
        else legal_filter pos validate ksq (Suc cur) moveList)
     else moveList)"
  by pat_completeness auto
termination
  by (relation "measure (\<lambda>(pos, validate, ksq, cur, moveList). length moveList - cur)") auto

declare legal_filter.simps [simp del]

definition generate_LEGAL :: "position \<Rightarrow> error + move list" where
  "generate_LEGAL pos =
    (if is_variant_end pos then Inr []
     else
       let pinned = pinned_pieces pos (side_to_move pos);
           validate = (pinned \<noteq> 0 \<or> is_race pos);
           ksq = square_of pos KING (side_to_move pos)
       in case (if checkers pos \<noteq> 0 then generate_EVASIONS pos else generate NON_EVASIONS pos) of
            Inl e \<Rightarrow> Inl e
          | Inr moveList \<Rightarrow> Inr (legal_filter pos validate ksq 0 moveList))"

text \<open>The entry point \<^verbatim>\<open>generate<T>\<close> for any kind \<open>T\<close>: the three specialisations and
  the generic template.\<close>

definition generate_T :: "gentype \<Rightarrow> position \<Rightarrow> error + move list" where
  "generate_T T pos =
    (if T = QUIET_CHECKS then generate_QUIET_CHECKS pos
     else if T = EVASIONS then generate_EVASIONS pos
     else if T = LEGAL then generate_LEGAL pos
     else generate T pos)"

text \<open>The variants in which the captures and the quiet moves together are the
  non-evasions (Antichess, Atomic and Losers chess restrict the targets differently).\<close>

definition splits_evenly :: "variant \<Rightarrow> bool" where
  "splits_evenly V \<longleftrightarrow> V \<noteq> ANTI_VARIANT \<and> V \<noteq> ATOMIC_VARIANT \<and> V \<noteq> LOSERS_VARIANT"

text \<open>What is claimed of a drop: it lands on the board, on an empty square that is not a
  checking piece's square, drops a piece of the side to move, and a pawn is not dropped
  on the first or eighth rank.\<close>

definition drop_ok :: "position \<Rightarrow> move \<Rightarrow> bool" where
  "drop_ok pos m \<longleftrightarrow>
     \<not> has_square (pieces pos) (to_sq m) \<and> \<not> has_square (checkers pos) (to_sq m)
     \<and> 0 \<le> to_sq m \<and> to_sq m < 64
     \<and> (\<exists>Pt. m = make_drop (to_sq m) (side_to_move pos, Pt)
           \<and> (Pt = PAWN \<longrightarrow> \<not> has_square (Rank1BB OR Rank8BB) (to_sq m)))"

text \<open>The invariants of a position that the distinctness of the generated moves rests on,
  for the side to move: the piece lists of knights, bishops, rooks and queens have no
  repetition and list squares of their own bitboard; the bitboards of the six piece types
  are pairwise disjoint; the king square, when on the board, is a king's; a pawn among the
  discovered-check candidates is a pawn for \<^verbatim>\<open>piece_on\<close>; when both castling rights are
  held, the two castling rooks stand on different squares; and in Atomic chess the enemy
  pieces are occupied squares, the squares between a checker and the king are empty, and
  the pawn behind the en-passant square is there.\<close>

definition piece_types :: "piecetype list" where
  "piece_types = [PAWN, KNIGHT, BISHOP, ROOK, QUEEN, KING]"

definition wf_position :: "position \<Rightarrow> bool" where
  "wf_position pos \<longleftrightarrow>
    (let us = side_to_move pos; k = square_of pos KING us in
       (\<forall>Pt \<in> {KNIGHT, BISHOP, ROOK, QUEEN}.
           distinct (squares pos Pt us)
           \<and> (\<forall>s \<in> set (squares pos Pt us). has_square (pieces_cpt pos us Pt) s))
     \<and> (\<forall>A \<in> set piece_types. \<forall>B \<in> set piece_types.
           A \<noteq> B \<longrightarrow> pieces_pt pos A AND pieces_pt pos B = 0)
     \<and> (0 \<le> k \<and> k < 64 \<longrightarrow> has_square (pieces_pt pos KING) k)
     \<and> list_all (\<lambda>s. has_square (pieces_pt pos PAWN) s \<longrightarrow> type_of_piece (piece_on pos s) = PAWN)
          (pop_lsb_all (discovered_check_candidates pos))
     \<and> (can_castle pos (MakeCastling us KING_SIDE) \<and> can_castle pos (MakeCastling us QUEEN_SIDE)
          \<longrightarrow> castling_rook_square pos (MakeCastling us KING_SIDE)
                \<noteq> castling_rook_square pos (MakeCastling us QUEEN_SIDE))
     \<and> (is_atomic pos \<longrightarrow>
           pieces_c pos (opp us) AND NOT (pieces pos) = 0
         \<and> (checkers pos \<noteq> 0 \<longrightarrow> between_bb pos (lsb (checkers pos)) k AND pieces pos = 0)
         \<and> (ep_square pos \<noteq> SQ_NONE
              \<longrightarrow> has_square (pieces pos) (ep_square pos - delta (Up us)))))"

text \<open>The part of \<^verbatim>\<open>generate_all\<close> that writes a move, by number, as read off the move and
  the position: pawn pushes 0, promotions 1, pawn captures 2, knights to queens 3 to 6,
  drops 7, the king 8, castling 9.\<close>

definition move_part :: "position \<Rightarrow> move \<Rightarrow> nat" where
  "move_part pos m =
    (let us = side_to_move pos in
     case type_of m of
       PROMOTION \<Rightarrow> 1
     | ENPASSANT \<Rightarrow> 2
     | DROP \<Rightarrow> 7
     | CASTLING \<Rightarrow> 9
     | NORMAL \<Rightarrow>
        if has_square (pieces_pt pos PAWN) (from_sq m)
        then (if to_sq m - from_sq m = delta (Up us) \<or> to_sq m - from_sq m = 2 * delta (Up us)
              then 0 else 2)
        else if from_sq m \<in> set (squares pos KNIGHT us) then 3
        else if from_sq m \<in> set (squares pos BISHOP us) then 4
        else if from_sq m \<in> set (squares pos ROOK us) then 5
        else if from_sq m \<in> set (squares pos QUEEN us) then 6
        else 8)"

text \<open>Lists of parts, each without repetition and holding the moves of its number.\<close>

fun parts_ok :: "('a \<Rightarrow> nat) \<Rightarrow> nat \<Rightarrow> 'a list list \<Rightarrow> bool" where
  "parts_ok part i [] = True"
| "parts_ok part i (xs # xss) =
     (distinct xs \<and> (\<forall>m \<in> set xs. part m = i) \<and> parts_ok part (Suc i) xss)"

section \<open>Concrete positions\<close>

text \<open>Concrete positions, at which the theorems below are instantiated, are written as
  the answers a \<^verbatim>\<open>Position\<close> gives on them. \<open>empty_position\<close> is the empty board with
  White to move; each concrete position updates the queries its placement changes.\<close>

definition no_bb :: "'a \<Rightarrow> bitboard" where "no_bb x = 0"
definition no_bb2 :: "'a \<Rightarrow> 'b \<Rightarrow> bitboard" where "no_bb2 x y = 0"
definition no_square :: "'a \<Rightarrow> square" where "no_square x = SQ_NONE"
definition no_square2 :: "'a \<Rightarrow> 'b \<Rightarrow> square" where "no_square2 x y = SQ_NONE"
definition no_squares :: "piecetype \<Rightarrow> color \<Rightarrow> square list" where "no_squares pt c = []"
definition no_piece :: "square \<Rightarrow> piece option" where "no_piece s = None"
definition never :: "'a \<Rightarrow> bool" where "never x = False"
definition always :: "'a \<Rightarrow> bool" where "always x = True"
definition none_in_hand :: "piecetype \<Rightarrow> color \<Rightarrow> nat" where "none_in_hand pt c = 0"

text \<open>Tables for the queries of a concrete position. A table lists the entries the
  generator asks for on that position; \<open>attackers_table\<close> gives the attackers of a square
  under the position's own occupancy.\<close>

definition by_color :: "bitboard \<Rightarrow> bitboard \<Rightarrow> color \<Rightarrow> bitboard" where
  "by_color w b c = (if c = WHITE then w else b)"

definition by_type ::
  "bitboard \<Rightarrow> bitboard \<Rightarrow> bitboard \<Rightarrow> bitboard \<Rightarrow> bitboard \<Rightarrow> bitboard
     \<Rightarrow> piecetype \<Rightarrow> bitboard" where
  "by_type p n b r q k pt =
    (if pt = PAWN then p else if pt = KNIGHT then n else if pt = BISHOP then b
     else if pt = ROOK then r else if pt = QUEEN then q else if pt = KING then k else 0)"

definition king_squares :: "square \<Rightarrow> square \<Rightarrow> piecetype \<Rightarrow> color \<Rightarrow> square" where
  "king_squares w b pt c = (if pt = KING then (if c = WHITE then w else b) else SQ_NONE)"

definition piece_lists ::
  "((piecetype \<times> color) \<times> square list) list \<Rightarrow> piecetype \<Rightarrow> color \<Rightarrow> square list" where
  "piece_lists tb pt c = (case map_of tb (pt, c) of None \<Rightarrow> [] | Some l \<Rightarrow> l)"

definition piece_table :: "(square \<times> piece) list \<Rightarrow> square \<Rightarrow> piece option" where
  "piece_table tb s = map_of tb s"

definition attack_table ::
  "((piecetype \<times> square) \<times> bitboard) list \<Rightarrow> piecetype \<Rightarrow> square \<Rightarrow> bitboard" where
  "attack_table tb pt s = (case map_of tb (pt, s) of None \<Rightarrow> 0 | Some b \<Rightarrow> b)"

definition attackers_table :: "(square \<times> bitboard) list \<Rightarrow> square \<Rightarrow> bitboard \<Rightarrow> bitboard" where
  "attackers_table tb s occ = (case map_of tb s of None \<Rightarrow> 0 | Some b \<Rightarrow> b)"

definition square_pair_table ::
  "((square \<times> square) \<times> bitboard) list \<Rightarrow> square \<Rightarrow> square \<Rightarrow> bitboard" where
  "square_pair_table tb s1 s2 = (case map_of tb (s1, s2) of None \<Rightarrow> 0 | Some b \<Rightarrow> b)"

definition right_table :: "(castlingright \<times> 'a) list \<Rightarrow> 'a \<Rightarrow> castlingright \<Rightarrow> 'a" where
  "right_table tb d cr = (case map_of tb cr of None \<Rightarrow> d | Some x \<Rightarrow> x)"

definition hand_table :: "((piecetype \<times> color) \<times> nat) list \<Rightarrow> piecetype \<Rightarrow> color \<Rightarrow> nat" where
  "hand_table tb pt c = (case map_of tb (pt, c) of None \<Rightarrow> 0 | Some n \<Rightarrow> n)"

definition move_table :: "move list \<Rightarrow> move \<Rightarrow> bool" where
  "move_table tb m = List.member tb m"

text \<open>The squares a pawn of colour \<open>c\<close> on \<open>s\<close> attacks.\<close>

definition pawn_attacks_from :: "square \<Rightarrow> color \<Rightarrow> bitboard" where
  "pawn_attacks_from s c =
     shift (if c = WHITE then NORTH_EAST else SOUTH_WEST) (square_bb s)
     OR shift (if c = WHITE then NORTH_WEST else SOUTH_EAST) (square_bb s)"

definition by_color_bool :: "bool \<Rightarrow> bool \<Rightarrow> color \<Rightarrow> bool" where
  "by_color_bool w b c = (if c = WHITE then w else b)"

definition empty_position :: position where
  "empty_position =
        \<lparr> side_to_move = WHITE,
          pieces = 0,
          pieces_c = no_bb,
          pieces_pt = no_bb,
          square_of = no_square2,
          squares = no_squares,
          piece_on = no_piece,
          attackers_to_occ = no_bb2,
          attacks_from = no_bb2,
          attacks_from_pawn = no_bb2,
          checkers = 0,
          check_squares = no_bb,
          discovered_check_candidates = 0,
          pinned_pieces = no_bb,
          ep_square = SQ_NONE,
          can_castle = never,
          can_castle_c = never,
          castling_impeded = never,
          castling_rook_square = no_square,
          castling_king_square = no_square,
          is_chess960 = False,
          is_anti = False,
          is_atomic = False,
          is_house = False,
          is_horde = False,
          is_losers = False,
          is_race = False,
          is_relay = False,
          is_variant_end = False,
          can_capture = False,
          can_capture_losers = False,
          count_in_hand = none_in_hand,
          gives_check = never,
          legal = always,
          capture = never,
          PseudoAttacks = no_bb2,
          LineBB = no_bb2,
          between_bb = no_bb2,
          passed_pawn_mask = no_bb2,
          attacks_bb_ROOK = no_bb2 \<rparr>"

text \<open>White: king e1, pawn e7. Black: king g7. White to move; a knight on e8 would attack g7.\<close>

definition c8_pos :: position where
  "c8_pos = empty_position
    \<lparr> pieces := 0x0050000000000010,
      pieces_c := by_color 0x0010000000000010 0x0040000000000000,
      pieces_pt := by_type 0x0010000000000000 0x0000000000000000 0x0000000000000000 0x0000000000000000 0x0000000000000000 0x0040000000000010,
      square_of := king_squares 4 54,
      squares := piece_lists [],
      piece_on := piece_table [(4, (WHITE, KING)), (52, (WHITE, PAWN)), (54, (BLACK, KING))],
      attacks_from := attack_table [((KING, 4), 0x0000000000003828),
      ((KING, 54), 0xE0A0E00000000000)],
      attacks_from_pawn := pawn_attacks_from,
      checkers := 0x0000000000000000,
      PseudoAttacks := attack_table [((KNIGHT, 60), 0x0044280000000000)] \<rparr>"

text \<open>White: king e1. Black: king a8, rook e8, knight f3. White to move, in check by the rook and the knight.\<close>

definition c7_pos :: position where
  "c7_pos = empty_position
    \<lparr> pieces := 0x1100000000200010,
      pieces_c := by_color 0x0000000000000010 0x1100000000200000,
      pieces_pt := by_type 0x0000000000000000 0x0000000000200000 0x0000000000000000 0x1000000000000000 0x0000000000000000 0x0100000000000010,
      square_of := king_squares 4 56,
      squares := piece_lists [],
      piece_on := piece_table [(4, (WHITE, KING)), (21, (BLACK, KNIGHT)), (56, (BLACK, KING)), (60, (BLACK, ROOK))],
      attacks_from := attack_table [((KING, 4), 0x0000000000003828),
      ((KNIGHT, 21), 0x0000005088008850),
      ((KING, 56), 0x0203000000000000),
      ((ROOK, 60), 0xEF10101010101010)],
      attacks_from_pawn := pawn_attacks_from,
      checkers := 0x1000000000200000,
      LineBB := square_pair_table [((60, 4), 0x1010101010101010)] \<rparr>"

text \<open>Antichess. White: king e1, rook h1, with the right to castle king side. Black: rook f8, which attacks f1. White to move.\<close>

definition c9_pos :: position where
  "c9_pos = empty_position
    \<lparr> pieces := 0x2000000000000090,
      pieces_c := by_color 0x0000000000000090 0x2000000000000000,
      pieces_pt := by_type 0x0000000000000000 0x0000000000000000 0x0000000000000000 0x2000000000000080 0x0000000000000000 0x0000000000000010,
      square_of := king_squares 4 SQ_NONE,
      squares := piece_lists [((ROOK, WHITE), [7])],
      piece_on := piece_table [(4, (WHITE, KING)), (7, (WHITE, ROOK)), (61, (BLACK, ROOK))],
      attacks_from := attack_table [((KING, 4), 0x0000000000003828),
      ((ROOK, 7), 0x8080808080808070),
      ((ROOK, 61), 0xDF20202020202020)],
      attacks_from_pawn := pawn_attacks_from,
      checkers := 0x0000000000000000,
      attackers_to_occ := attackers_table [(5, 0x2000000000000090), (6, 0x0000000000000080)],
      is_anti := True,
      can_castle := right_table [(WHITE_OO, True)] False,
      can_castle_c := by_color_bool True False,
      castling_rook_square := right_table [(WHITE_OO, 7)] SQ_NONE,
      castling_king_square := right_table [(WHITE_OO, 4)] SQ_NONE \<rparr>"

text \<open>Chess960. White: king b1, rook h1, with the right to castle king side (king to g1). Black: king h8, rook d8, which attacks d1. White to move.\<close>

definition c4_pos :: position where
  "c4_pos = empty_position
    \<lparr> pieces := 0x8800000000000082,
      pieces_c := by_color 0x0000000000000082 0x8800000000000000,
      pieces_pt := by_type 0x0000000000000000 0x0000000000000000 0x0000000000000000 0x0800000000000080 0x0000000000000000 0x8000000000000002,
      square_of := king_squares 1 63,
      squares := piece_lists [((ROOK, WHITE), [7])],
      piece_on := piece_table [(1, (WHITE, KING)), (7, (WHITE, ROOK)), (59, (BLACK, ROOK)), (63, (BLACK, KING))],
      attacks_from := attack_table [((KING, 1), 0x0000000000000705),
      ((ROOK, 7), 0x808080808080807E),
      ((ROOK, 59), 0xF708080808080808),
      ((KING, 63), 0x40C0000000000000)],
      attacks_from_pawn := pawn_attacks_from,
      checkers := 0x0000000000000000,
      attackers_to_occ := attackers_table [(2, 0x0000000000000082), (3, 0x0800000000000080), (4, 0x0000000000000080), (5, 0x0000000000000080), (6, 0x0000000000000080)],
      is_chess960 := True,
      can_castle := right_table [(WHITE_OO, True)] False,
      can_castle_c := by_color_bool True False,
      castling_rook_square := right_table [(WHITE_OO, 7)] SQ_NONE,
      castling_king_square := right_table [(WHITE_OO, 1)] SQ_NONE \<rparr>"

text \<open>Antichess. White: king e1, pawn e5. Black: king e8, pawns d5 and f6; the d-pawn has just advanced two squares, so the en-passant square is d6. White to move, and can capture.\<close>

definition c6_pos :: position where
  "c6_pos = empty_position
    \<lparr> pieces := 0x1000201800000010,
      pieces_c := by_color 0x0000001000000010 0x1000200800000000,
      pieces_pt := by_type 0x0000201800000000 0x0000000000000000 0x0000000000000000 0x0000000000000000 0x0000000000000000 0x1000000000000010,
      square_of := king_squares 4 60,
      squares := piece_lists [],
      piece_on := piece_table [(4, (WHITE, KING)), (35, (BLACK, PAWN)), (36, (WHITE, PAWN)), (45, (BLACK, PAWN)), (60, (BLACK, KING))],
      attacks_from := attack_table [((KING, 4), 0x0000000000003828),
      ((KING, 60), 0x2838000000000000)],
      attacks_from_pawn := pawn_attacks_from,
      checkers := 0x0000000000000000,
      ep_square := 43,
      is_anti := True,
      can_capture := True \<rparr>"

text \<open>The position \<^verbatim>\<open>rnbqkbnr/p1pppppp/8/1p6/8/8/PPPPPPPP/RNBQKBNR w KQkq\<close> as a \<^verbatim>\<open>Position\<close> reports it when it keeps no en-passant square that no pawn can capture on (\<open>ep_square = SQ_NONE\<close>).\<close>

definition fen6_pos :: position where
  "fen6_pos = empty_position
    \<lparr> pieces := 0xFFFD00020000FFFF,
      pieces_c := by_color 0x000000000000FFFF 0xFFFD000200000000,
      pieces_pt := by_type 0x00FD00020000FF00 0x4200000000000042 0x2400000000000024 0x8100000000000081 0x0800000000000008 0x1000000000000010,
      square_of := king_squares 4 60,
      squares := piece_lists [((KNIGHT, WHITE), [1, 6]), ((BISHOP, WHITE), [2, 5]), ((ROOK, WHITE), [0, 7]), ((QUEEN, WHITE), [3])],
      piece_on := piece_table [(0, (WHITE, ROOK)), (1, (WHITE, KNIGHT)), (2, (WHITE, BISHOP)), (3, (WHITE, QUEEN)), (4, (WHITE, KING)), (5, (WHITE, BISHOP)), (6, (WHITE, KNIGHT)), (7, (WHITE, ROOK)), (8, (WHITE, PAWN)), (9, (WHITE, PAWN)), (10, (WHITE, PAWN)), (11, (WHITE, PAWN)), (12, (WHITE, PAWN)), (13, (WHITE, PAWN)), (14, (WHITE, PAWN)), (15, (WHITE, PAWN)), (33, (BLACK, PAWN)), (48, (BLACK, PAWN)), (50, (BLACK, PAWN)), (51, (BLACK, PAWN)), (52, (BLACK, PAWN)), (53, (BLACK, PAWN)), (54, (BLACK, PAWN)), (55, (BLACK, PAWN)), (56, (BLACK, ROOK)), (57, (BLACK, KNIGHT)), (58, (BLACK, BISHOP)), (59, (BLACK, QUEEN)), (60, (BLACK, KING)), (61, (BLACK, BISHOP)), (62, (BLACK, KNIGHT)), (63, (BLACK, ROOK))],
      attacks_from := attack_table [((ROOK, 0), 0x0000000000000102),
      ((KNIGHT, 1), 0x0000000000050800),
      ((BISHOP, 2), 0x0000000000000A00),
      ((QUEEN, 3), 0x0000000000001C14),
      ((KING, 4), 0x0000000000003828),
      ((BISHOP, 5), 0x0000000000005000),
      ((KNIGHT, 6), 0x0000000000A01000),
      ((ROOK, 7), 0x0000000000008040),
      ((ROOK, 56), 0x0201000000000000),
      ((KNIGHT, 57), 0x0008050000000000),
      ((BISHOP, 58), 0x000A010000000000),
      ((QUEEN, 59), 0x141C000000000000),
      ((KING, 60), 0x2838000000000000),
      ((BISHOP, 61), 0x0050000000000000),
      ((KNIGHT, 62), 0x0010A00000000000),
      ((ROOK, 63), 0x4080000000000000)],
      attacks_from_pawn := pawn_attacks_from,
      checkers := 0x0000000000000000,
      can_castle := right_table [(WHITE_OO, True), (WHITE_OOO, True), (BLACK_OO, True), (BLACK_OOO, True)] False,
      can_castle_c := by_color_bool True True,
      castling_impeded := right_table [(WHITE_OO, True), (WHITE_OOO, True), (BLACK_OO, True), (BLACK_OOO, True)] False,
      castling_rook_square := right_table [(WHITE_OO, 7), (WHITE_OOO, 0), (BLACK_OO, 63), (BLACK_OOO, 56)] SQ_NONE \<rparr>"

text \<open>White: king h3, pawn e5. Black: king e8, bishop c8, pawn d5, which has just moved from d7 and uncovered the check of the bishop. White to move; the en-passant square is d6, attacked by the pawn e5. The legal moves are the four king moves and e5-e6.\<close>

definition c5_pos :: position where
  "c5_pos = empty_position
    \<lparr> pieces := 0x1400001800800000,
      pieces_c := by_color 0x0000001000800000 0x1400000800000000,
      pieces_pt := by_type 0x0000001800000000 0x0000000000000000 0x0400000000000000 0x0000000000000000 0x0000000000000000 0x1000000000800000,
      square_of := king_squares 23 60,
      squares := piece_lists [],
      piece_on := piece_table [(23, (WHITE, KING)), (35, (BLACK, PAWN)), (36, (WHITE, PAWN)), (58, (BLACK, BISHOP)), (60, (BLACK, KING))],
      attacks_from := attack_table [((KING, 23), 0x00000000C040C000),
      ((BISHOP, 58), 0x000A112040800000),
      ((KING, 60), 0x2838000000000000)],
      attacks_from_pawn := pawn_attacks_from,
      checkers := 0x0400000000000000,
      LineBB := square_pair_table [((58, 23), 0x0408102040800000)],
      between_bb := square_pair_table [((58, 23), 0x0008102040000000)],
      ep_square := 43,
      legal := move_table [make_move 23 14, make_move 23 15, make_move 23 22, make_move 23 31,
                           make_move 36 44] \<rparr>"

text \<open>The same position without the bishop: no check, and the en-passant capture e5xd6 is available.\<close>

definition c5_free_pos :: position where
  "c5_free_pos = empty_position
    \<lparr> pieces := 0x1000001800800000,
      pieces_c := by_color 0x0000001000800000 0x1000000800000000,
      pieces_pt := by_type 0x0000001800000000 0x0000000000000000 0x0000000000000000 0x0000000000000000 0x0000000000000000 0x1000000000800000,
      square_of := king_squares 23 60,
      squares := piece_lists [],
      piece_on := piece_table [(23, (WHITE, KING)), (35, (BLACK, PAWN)), (36, (WHITE, PAWN)), (60, (BLACK, KING))],
      attacks_from := attack_table [((KING, 23), 0x00000000C040C000),
      ((KING, 60), 0x2838000000000000)],
      attacks_from_pawn := pawn_attacks_from,
      checkers := 0x0000000000000000,
      ep_square := 43 \<rparr>"

text \<open>Atomic chess. White: king e1, bishop a4, knight c3. Black: king h8, rook e8, pawn d7. White to move, in check by the rook; the bishop can blast the rook by taking d7, the knight can block on e2 and e4.\<close>

definition c3_pos :: position where
  "c3_pos = empty_position
    \<lparr> pieces := 0x9008000001040010,
      pieces_c := by_color 0x0000000001040010 0x9008000000000000,
      pieces_pt := by_type 0x0008000000000000 0x0000000000040000 0x0000000001000000 0x1000000000000000 0x0000000000000000 0x8000000000000010,
      square_of := king_squares 4 63,
      squares := piece_lists [((KNIGHT, WHITE), [18]), ((BISHOP, WHITE), [24])],
      piece_on := piece_table [(4, (WHITE, KING)), (18, (WHITE, KNIGHT)), (24, (WHITE, BISHOP)), (51, (BLACK, PAWN)), (60, (BLACK, ROOK)), (63, (BLACK, KING))],
      attacks_from := attack_table [((KING, 4), 0x0000000000003828),
      ((KNIGHT, 18), 0x0000000A1100110A),
      ((BISHOP, 24), 0x0008040200020408),
      ((KING, 60), 0x2838000000000000),
      ((ROOK, 60), 0xEF10101010101010),
      ((KING, 63), 0x40C0000000000000)],
      attacks_from_pawn := pawn_attacks_from,
      checkers := 0x1000000000000000,
      LineBB := square_pair_table [((60, 4), 0x1010101010101010)],
      between_bb := square_pair_table [((60, 4), 0x0010101010101000)],
      is_atomic := True,
      capture := move_table [make_move 24 51] \<rparr>"

text \<open>Crazyhouse. White: king e1, a pawn and a knight in hand. Black: king a8, rook e8, which gives check on the e-file. White to move.\<close>

definition c10_pos :: position where
  "c10_pos = empty_position
    \<lparr> pieces := 0x1100000000000010,
      pieces_c := by_color 0x0000000000000010 0x1100000000000000,
      pieces_pt := by_type 0x0000000000000000 0x0000000000000000 0x0000000000000000 0x1000000000000000 0x0000000000000000 0x0100000000000010,
      square_of := king_squares 4 56,
      squares := piece_lists [],
      piece_on := piece_table [(4, (WHITE, KING)), (56, (BLACK, KING)), (60, (BLACK, ROOK))],
      attacks_from := attack_table [((KING, 4), 0x0000000000003828),
      ((KING, 56), 0x0203000000000000),
      ((ROOK, 60), 0xEF10101010101010)],
      attacks_from_pawn := pawn_attacks_from,
      checkers := 0x1000000000000000,
      LineBB := square_pair_table [((60, 4), 0x1010101010101010)],
      between_bb := square_pair_table [((60, 4), 0x0010101010101000)],
      is_house := True,
      count_in_hand := hand_table [((PAWN, WHITE), 1), ((KNIGHT, WHITE), 1), ((ALL_PIECES, WHITE), 2)] \<rparr>"

text \<open>Standard chess. White: king e1, knight c3, pawn a7. Black: king e8, rook b8. White to move.\<close>

definition c2_pos :: position where
  "c2_pos = empty_position
    \<lparr> pieces := 0x1201000000040010,
      pieces_c := by_color 0x0001000000040010 0x1200000000000000,
      pieces_pt := by_type 0x0001000000000000 0x0000000000040000 0x0000000000000000 0x0200000000000000 0x0000000000000000 0x1000000000000010,
      square_of := king_squares 4 60,
      squares := piece_lists [((KNIGHT, WHITE), [18])],
      piece_on := piece_table [(4, (WHITE, KING)), (18, (WHITE, KNIGHT)), (48, (WHITE, PAWN)), (57, (BLACK, ROOK)), (60, (BLACK, KING))],
      attacks_from := attack_table [((KING, 4), 0x0000000000003828),
      ((KNIGHT, 18), 0x0000000A1100110A),
      ((ROOK, 57), 0x1D02020202020202),
      ((KING, 60), 0x2838000000000000)],
      attacks_from_pawn := pawn_attacks_from,
      checkers := 0x0000000000000000 \<rparr>"

text \<open>Antichess. White: pawn a7. Black: rook b8. White to move, and can capture.\<close>

definition c2_anti_pos :: position where
  "c2_anti_pos = empty_position
    \<lparr> pieces := 0x0201000000000000,
      pieces_c := by_color 0x0001000000000000 0x0200000000000000,
      pieces_pt := by_type 0x0001000000000000 0x0000000000000000 0x0000000000000000 0x0200000000000000 0x0000000000000000 0x0000000000000000,
      square_of := king_squares SQ_NONE SQ_NONE,
      squares := piece_lists [],
      piece_on := piece_table [(48, (WHITE, PAWN)), (57, (BLACK, ROOK))],
      attacks_from := attack_table [((ROOK, 57), 0xFD02020202020202)],
      attacks_from_pawn := pawn_attacks_from,
      checkers := 0x0000000000000000,
      is_anti := True,
      can_capture := True \<rparr>"

text \<open>Atomic chess. White: king e1. Black: king e8, knight d2, next to the white king. White to move.\<close>

definition c2_atomic_pos :: position where
  "c2_atomic_pos = empty_position
    \<lparr> pieces := 0x1000000000000810,
      pieces_c := by_color 0x0000000000000010 0x1000000000000800,
      pieces_pt := by_type 0x0000000000000000 0x0000000000000800 0x0000000000000000 0x0000000000000000 0x0000000000000000 0x1000000000000010,
      square_of := king_squares 4 60,
      squares := piece_lists [],
      piece_on := piece_table [(4, (WHITE, KING)), (11, (BLACK, KNIGHT)), (60, (BLACK, KING))],
      attacks_from := attack_table [((KING, 4), 0x0000000000003828),
      ((KNIGHT, 11), 0x0000000014220022),
      ((KING, 60), 0x2838000000000000)],
      attacks_from_pawn := pawn_attacks_from,
      checkers := 0x0000000000000000,
      is_atomic := True \<rparr>"

text \<open>Losers chess. White: king e1, pawn a7. Black: king h8. White to move; no capture is available.\<close>

definition c2_losers_pos :: position where
  "c2_losers_pos = empty_position
    \<lparr> pieces := 0x8001000000000010,
      pieces_c := by_color 0x0001000000000010 0x8000000000000000,
      pieces_pt := by_type 0x0001000000000000 0x0000000000000000 0x0000000000000000 0x0000000000000000 0x0000000000000000 0x8000000000000010,
      square_of := king_squares 4 63,
      squares := piece_lists [],
      piece_on := piece_table [(4, (WHITE, KING)), (48, (WHITE, PAWN)), (63, (BLACK, KING))],
      attacks_from := attack_table [((KING, 4), 0x0000000000003828),
      ((KING, 63), 0x40C0000000000000)],
      attacks_from_pawn := pawn_attacks_from,
      checkers := 0x0000000000000000,
      is_losers := True \<rparr>"

section \<open>Basic facts\<close>

lemma in_pop_lsb_all: "s \<in> set (pop_lsb_all b) \<longleftrightarrow> 0 \<le> s \<and> s < 64 \<and> bit b (nat s)"
proof
  assume "s \<in> set (pop_lsb_all b)"
  then show "0 \<le> s \<and> s < 64 \<and> bit b (nat s)"
    by (auto simp: pop_lsb_all_def)
next
  assume h: "0 \<le> s \<and> s < 64 \<and> bit b (nat s)"
  then have "nat s < 64" by linarith
  with h have "nat s \<in> set (filter (bit b) [0..<64])" by simp
  then have "int (nat s) \<in> set (pop_lsb_all b)"
    unfolding pop_lsb_all_def by (simp only: set_map image_eqI)
  with h show "s \<in> set (pop_lsb_all b)" by simp
qed

lemma distinct_pop_lsb_all: "distinct (pop_lsb_all b)"
  by (simp add: pop_lsb_all_def distinct_map inj_on_def)

lemma has_square_iff_bit: "has_square b s \<longleftrightarrow> 0 \<le> s \<and> s < 64 \<and> bit b (nat s)"
  by (auto simp: has_square_def square_bb_def push_bit_of_1 and_exp_eq_0_iff_not_bit)

lemma has_square_simps [simp]:
  "has_square (a AND b) s \<longleftrightarrow> has_square a s \<and> has_square b s"
  "has_square (a OR b) s \<longleftrightarrow> has_square a s \<or> has_square b s"
  "has_square (a XOR b) s \<longleftrightarrow> (has_square a s \<noteq> has_square b s)"
  "has_square (NOT a) s \<longleftrightarrow> 0 \<le> s \<and> s < 64 \<and> \<not> has_square a s"
  "\<not> has_square 0 s"
  by (auto simp: has_square_iff_bit bit_simps)

lemma has_squareI: "b AND square_bb s \<noteq> 0 \<Longrightarrow> has_square b s"
  by (simp add: has_square_def)

lemma has_square_range: "has_square b s \<Longrightarrow> 0 \<le> s \<and> s < 64"
  by (simp add: has_square_iff_bit)

lemma set_pop_lsb_all: "s \<in> set (pop_lsb_all b) \<longleftrightarrow> has_square b s"
  by (simp add: in_pop_lsb_all has_square_iff_bit)

subsection \<open>A single set bit\<close>

lemma dec_above_least:
  fixes b :: "'a::len word"
  assumes i: "bit b i" and low: "\<And>n. n < i \<Longrightarrow> \<not> bit b n" and j: "i < j"
  shows "bit (b - 1) j = bit b j"
proof -
  have b: "b = (b AND NOT (mask (Suc i))) + 2 ^ i"
  proof -
    have "b AND mask (Suc i) = 2 ^ i"
    proof (rule bit_word_eqI)
      fix n assume "n < LENGTH('a)"
      then show "bit (b AND mask (Suc i)) n = bit (2 ^ i :: 'a word) n"
        using i low[of n] by (auto simp: bit_simps less_Suc_eq dest: bit_imp_le_length)
    qed
    moreover have "b = (b AND NOT (mask (Suc i))) + (b AND mask (Suc i))"
      by (subst disjunctive_add_eq_or) (rule bit_word_eqI, auto simp: bit_simps)+
    ultimately show ?thesis by simp
  qed
  have "b - 1 = (b AND NOT (mask (Suc i))) + (2 ^ i - 1)"
    by (subst b) simp
  also have "\<dots> = (b AND NOT (mask (Suc i))) + mask i"
    by (simp add: mask_eq_exp_minus_1)
  also have "\<dots> = (b AND NOT (mask (Suc i))) OR mask i"
    by (rule disjunctive_add_eq_or) (rule bit_word_eqI, auto simp: bit_simps)
  finally have "b - 1 = (b AND NOT (mask (Suc i))) OR mask i" .
  then show ?thesis
    using j by (auto simp: bit_simps dest: bit_imp_le_length)
qed

lemma two_bits_more_than_one:
  fixes b :: bitboard
  assumes "bit b i" "bit b j" "i \<noteq> j"
  shows "more_than_one b"
proof -
  define l where "l = (LEAST n. bit b n)"
  have l: "bit b l" unfolding l_def using assms(1) by (rule LeastI)
  have low: "\<not> bit b n" if "n < l" for n
    using that not_less_Least unfolding l_def by blast
  obtain k where k: "bit b k" "l < k"
  proof (cases "i = l")
    case True
    with assms low[of j] have "l < j" by (metis linorder_neqE_nat)
    with assms that show ?thesis by blast
  next
    case False
    with assms(1) low[of i] have "l < i" by (metis linorder_neqE_nat)
    with assms that show ?thesis by blast
  qed
  have "bit (b - 1) k" using dec_above_least[OF l low k(2)] k(1) by simp
  with k(1) have "bit (b AND (b - 1)) k" by (simp add: bit_simps)
  then have "b AND (b - 1) \<noteq> 0" by auto
  then show ?thesis by (simp add: more_than_one_def)
qed

lemma lsb_least:
  assumes "has_square b s"
  shows "has_square b (lsb b) \<and> lsb b \<le> s"
proof -
  from assms have m: "nat s \<in> set (filter (bit b) [0..<64])"
    by (auto simp: has_square_iff_bit)
  then obtain x xs where f: "filter (bit b) [0..<64] = x # xs"
    by (cases "filter (bit b) [0..<64]") auto
  have "sorted (filter (bit b) [0..<64])" by (simp add: sorted_wrt_filter)
  with f m have "x \<le> nat s" by auto
  moreover have "x \<in> set (filter (bit b) [0..<64])" using f by simp
  moreover have "lsb b = int x" by (simp add: lsb_def pop_lsb_all_def f)
  ultimately show ?thesis using assms by (auto simp: has_square_iff_bit)
qed

lemma single_checker:
  assumes "\<not> more_than_one b" "has_square b s"
  shows "s = lsb b"
proof (rule ccontr)
  assume ne: "s \<noteq> lsb b"
  from lsb_least[OF assms(2)] have l: "has_square b (lsb b)" by simp
  from assms(2) l ne have "more_than_one b"
    by (intro two_bits_more_than_one[of b "nat s" "nat (lsb b)"]) (auto simp: has_square_iff_bit)
  with assms(1) show False by simp
qed

subsection \<open>The kind of move each part writes\<close>

lemma type_of_pawn_pushes:
  "m \<in> set (pawn_pushes V Us T pos target) \<Longrightarrow> type_of m = NORMAL"
  by (auto simp: pawn_pushes_def Let_def split: if_splits)

lemma type_of_make_promotions:
  "m \<in> set (make_promotions V T D pos to ksq) \<Longrightarrow> type_of m = PROMOTION \<and> to_sq m = to"
  by (auto simp: make_promotions_def split: if_splits)

lemma type_of_pawn_promotions:
  "m \<in> set (pawn_promotions V Us T pos target) \<Longrightarrow> type_of m = PROMOTION"
  by (auto simp: pawn_promotions_def Let_def split: if_splits dest: type_of_make_promotions)

lemma type_of_moves_from:
  "m \<in> set (moves_from V Pt Checks pos us target from) \<Longrightarrow> type_of m = NORMAL \<and> from_sq m = from"
  by (auto simp: moves_from_def Let_def split: if_splits)

lemma type_of_generate_moves:
  "m \<in> set (generate_moves V Pt Checks pos us target) \<Longrightarrow> type_of m = NORMAL"
  by (auto simp: generate_moves_def dest: type_of_moves_from)

lemma type_of_generate_drops:
  "m \<in> set (generate_drops Us Pt Checks pos b) \<Longrightarrow> type_of m = DROP"
  by (auto simp: generate_drops_def split: if_splits)

lemma type_of_all_drops:
  "m \<in> set (all_drops V Us T pos target) \<Longrightarrow> type_of m = DROP"
  by (auto simp: all_drops_def Let_def split: if_splits dest: type_of_generate_drops)

lemma type_of_king_moves:
  "m \<in> set (king_moves V Us T pos target) \<Longrightarrow> type_of m = NORMAL"
  by (auto simp: king_moves_def Let_def split: if_splits)

lemma generate_castling_cases:
  assumes "generate_castling V Cr Checks c960 pos us = Inr ms"
  shows "ms = [] \<or> ms = [make_CASTLING (if V = ANTI_VARIANT then castling_king_square pos Cr
                                     else square_of pos KING us) (castling_rook_square pos Cr)]"
  using assms unfolding generate_castling_def Let_def
  by (simp split: if_split_asm sum.split_asm bool.split_asm)

lemma type_of_generate_castling:
  "generate_castling V Cr Checks c960 pos us = Inr ms \<Longrightarrow> m \<in> set ms \<Longrightarrow> type_of m = CASTLING"
  by (drule generate_castling_cases) auto

lemma type_of_all_castling:
  "all_castling V Us T pos = Inr ms \<Longrightarrow> m \<in> set ms \<Longrightarrow> type_of m = CASTLING"
  by (auto simp: all_castling_def split: if_splits sum.splits dest: type_of_generate_castling)

lemma type_of_dc_moves: "m \<in> set (dc_moves pos) \<Longrightarrow> type_of m = NORMAL"
  by (auto simp: dc_moves_def Let_def split: if_splits)

lemma type_of_king_evasions:
  "m \<in> set (king_evasions pos) \<Longrightarrow>
     from_sq m = square_of pos KING (side_to_move pos) \<and> type_of m = NORMAL"
  by (auto simp: king_evasions_def Let_def)

lemma pawn_captures_no_promotion:
  "pawn_captures Us T pos target = Inr ms \<Longrightarrow> m \<in> set ms \<Longrightarrow> type_of m \<noteq> PROMOTION"
  by (auto simp: pawn_captures_def Let_def split: if_splits)

subsection \<open>The destination of the moves each part writes\<close>

lemma to_pawn_pushes:
  "m \<in> set (pawn_pushes V Us T pos target) \<Longrightarrow> has_square (push_empty V T pos target) (to_sq m)"
  unfolding pawn_pushes_def Let_def
  by (auto simp: set_pop_lsb_all split: if_split_asm)

lemma to_make_promotions:
  "m \<in> set (make_promotions V T D pos to ksq) \<Longrightarrow> to_sq m = to"
  by (auto simp: make_promotions_def split: if_split_asm)

lemma to_pawn_promotions:
  "m \<in> set (pawn_promotions V Us T pos target) \<Longrightarrow>
     has_square (pawn_enemies Us T pos target) (to_sq m)
     \<or> has_square (promo_empty V T pos target) (to_sq m)"
  unfolding pawn_promotions_def Let_def
  by (auto simp: set_pop_lsb_all split: if_split_asm dest!: to_make_promotions)

lemma to_pawn_captures:
  "pawn_captures Us T pos target = Inr ms \<Longrightarrow> m \<in> set ms \<Longrightarrow>
     (type_of m = ENPASSANT \<and> to_sq m = ep_square pos \<and> ep_square pos \<noteq> SQ_NONE)
     \<or> (type_of m = NORMAL \<and> has_square (pawn_enemies Us T pos target) (to_sq m))"
  unfolding pawn_captures_def Let_def
  by (auto simp: set_pop_lsb_all split: if_split_asm)

lemma to_moves_from:
  "m \<in> set (moves_from V Pt Checks pos us target from) \<Longrightarrow> has_square target (to_sq m)"
  unfolding moves_from_def relay_attacks_def Let_def
  by (auto simp: set_pop_lsb_all split: if_split_asm)

lemma to_generate_moves:
  "m \<in> set (generate_moves V Pt Checks pos us target) \<Longrightarrow> has_square target (to_sq m)"
  by (auto simp: generate_moves_def dest: to_moves_from)

lemma to_king_moves_anti:
  "m \<in> set (king_moves ANTI_VARIANT Us T pos target) \<Longrightarrow> has_square target (to_sq m)"
  by (auto simp: king_moves_def set_pop_lsb_all)

text \<open>Everything generate_all writes, by part.\<close>

lemma generate_all_parts:
  assumes "generate_all V Us T pos target = Inr ms" "m \<in> set ms"
  shows "m \<in> set (pawn_pushes V Us T pos target)
       \<or> m \<in> set (pawn_promotions V Us T pos target)
       \<or> (\<exists>caps. pawn_captures Us T pos target = Inr caps \<and> m \<in> set caps)
       \<or> (\<exists>Pt \<in> {KNIGHT, BISHOP, ROOK, QUEEN}. m \<in> set (generate_moves V Pt (T = QUIET_CHECKS) pos Us target))
       \<or> m \<in> set (all_drops V Us T pos target)
       \<or> m \<in> set (king_moves V Us T pos target)
       \<or> (\<exists>cs. all_castling V Us T pos = Inr cs \<and> m \<in> set cs
              \<and> \<not> (V = ANTI_VARIANT \<and> can_capture pos)
              \<and> \<not> (V = LOSERS_VARIANT \<and> can_capture_losers pos))"
  using assms
  by (auto simp: generate_all_def generate_pawn_moves_def Let_def split: sum.splits if_splits)

lemma promotions_QUIET_CHECKS:
  assumes "m \<in> set (pawn_promotions V Us QUIET_CHECKS pos target)"
  shows "promotion_type m = KNIGHT
       \<and> PseudoAttacks pos KNIGHT (to_sq m) AND square_bb (square_of pos KING (opp Us)) \<noteq> 0"
  using assms
  by (auto simp: pawn_promotions_def make_promotions_def Let_def split: if_splits)

lemma quiet_checks_promotion:
  assumes g: "generate_QUIET_CHECKS pos = Inr ms" and m: "m \<in> set ms" and p: "type_of m = PROMOTION"
  shows "promotion_type m = KNIGHT
        \<and> PseudoAttacks pos KNIGHT (to_sq m)
            AND square_bb (square_of pos KING (opp (side_to_move pos))) \<noteq> 0"
proof -
  let ?V = "variant_of pos" and ?us = "side_to_move pos"
  from p have nd: "m \<notin> set (dc_moves pos)" by (auto dest: type_of_dc_moves)
  from g m nd obtain gs where gs: "generate_all ?V ?us QUIET_CHECKS pos (NOT (pieces pos)) = Inr gs"
    and mg: "m \<in> set gs"
    by (auto simp: generate_QUIET_CHECKS_def split: if_split_asm sum.split_asm)
  from generate_all_parts[OF gs mg] p
  have "m \<in> set (pawn_promotions ?V ?us QUIET_CHECKS pos (NOT (pieces pos)))"
    by (auto dest: type_of_pawn_pushes pawn_captures_no_promotion type_of_generate_moves
        type_of_all_drops type_of_king_moves type_of_all_castling)
  then show ?thesis
    by (rule promotions_QUIET_CHECKS)
qed


section \<open>Promotions among the quiet checks\<close>

text \<open>Claim C8. In \<^verbatim>\<open>QUIET_CHECKS\<close> generation \<^verbatim>\<open>make_promotions\<close> writes, for a landing square
  \<open>to\<close>, the knight promotion alone, and exactly when \<^verbatim>\<open>PseudoAttacks[KNIGHT][to]\<close> contains
  the enemy king's square (outside Antichess, for which \<^verbatim>\<open>generate<QUIET_CHECKS>\<close> writes
  nothing); and every promotion in the output of \<^verbatim>\<open>generate<QUIET_CHECKS>\<close> is such a knight
  promotion, so no queen, rook or bishop promotion appears there.\<close>

theorem quiet_checks_knight_promotion_only:
  "(V \<noteq> ANTI_VARIANT \<longrightarrow>
      make_promotions V QUIET_CHECKS D pos to ksq =
        (if PseudoAttacks pos KNIGHT to AND square_bb ksq \<noteq> 0
         then [make_PROMOTION (to - delta D) to KNIGHT] else []))
   \<and> (generate_QUIET_CHECKS pos = Inr ms \<longrightarrow> m \<in> set ms \<longrightarrow> type_of m = PROMOTION \<longrightarrow>
        promotion_type m = KNIGHT
        \<and> PseudoAttacks pos KNIGHT (to_sq m)
            AND square_bb (square_of pos KING (opp (side_to_move pos))) \<noteq> 0)"
  using quiet_checks_promotion[of pos ms m] by (simp add: make_promotions_def)

theorem quiet_checks_knight_promotion_witness:
  "generate_QUIET_CHECKS c8_pos = Inr [make_PROMOTION 52 60 KNIGHT]
   \<and> make_promotions CHESS_VARIANT QUIET_CHECKS NORTH c8_pos 60 54 = [make_PROMOTION 52 60 KNIGHT]
   \<and> promotion_type (make_PROMOTION 52 60 KNIGHT) = KNIGHT
   \<and> PseudoAttacks c8_pos KNIGHT 60 AND square_bb 54 \<noteq> 0"
proof -
  have g: "generate_QUIET_CHECKS c8_pos = Inr [make_PROMOTION 52 60 KNIGHT]"
    by code_simp
  have k: "PseudoAttacks c8_pos KNIGHT 60 AND square_bb 54 \<noteq> 0"
    by code_simp
  have s: "square_of c8_pos KING (opp (side_to_move c8_pos)) = 54"
    by code_simp
  show ?thesis
    using quiet_checks_knight_promotion_only[of CHESS_VARIANT NORTH c8_pos 60 54
        "[make_PROMOTION 52 60 KNIGHT]" "make_PROMOTION 52 60 KNIGHT"] g k s
    by simp
qed

section \<open>Double check\<close>

lemma double_check_evasions:
  assumes "more_than_one (checkers pos)" "\<not> is_anti pos" "\<not> is_race pos"
  shows "generate_EVASIONS pos =
        (case atomic_blast pos of Inl e \<Rightarrow> Inl e | Inr blast \<Rightarrow> Inr (blast @ king_evasions pos))"
proof -
  from assms(1) have "checkers pos \<noteq> 0" by (auto simp: more_than_one_def)
  with assms show ?thesis
    by (simp add: generate_EVASIONS_def evasions_main_def split: sum.splits)
qed

text \<open>Claim C7. When more than one piece gives check, in every variant in which
  \<^verbatim>\<open>generate<EVASIONS>\<close> is not a no-op (all but Antichess and Racing Kings), the output is
  the Atomic blast sub-pass (empty outside Atomic chess) followed by the king evasions alone,
  and every king evasion is a normal move from the square of the king of the side to
  move: no pawn, piece, drop or blocking move is written.\<close>

theorem double_check_only_king_moves:
  "(more_than_one (checkers pos) \<and> \<not> is_anti pos \<and> \<not> is_race pos \<longrightarrow>
      generate_EVASIONS pos =
        (case atomic_blast pos of Inl e \<Rightarrow> Inl e | Inr blast \<Rightarrow> Inr (blast @ king_evasions pos)))
   \<and> (\<not> is_atomic pos \<longrightarrow> atomic_blast pos = Inr [])
   \<and> (\<forall>m \<in> set (king_evasions pos).
         from_sq m = square_of pos KING (side_to_move pos) \<and> type_of m = NORMAL)"
  using double_check_evasions[of pos] type_of_king_evasions[of _ pos]
  by (simp add: atomic_blast_def)

theorem double_check_witness:
  "more_than_one (checkers c7_pos) \<and> \<not> is_anti c7_pos \<and> \<not> is_race c7_pos
   \<and> \<not> is_atomic c7_pos
   \<and> generate_EVASIONS c7_pos
       = Inr [make_move 4 3, make_move 4 5, make_move 4 11, make_move 4 13]
   \<and> square_of c7_pos KING (side_to_move c7_pos) = 4"
proof -
  have h: "more_than_one (checkers c7_pos)" "\<not> is_anti c7_pos" "\<not> is_race c7_pos"
    "\<not> is_atomic c7_pos" "square_of c7_pos KING (side_to_move c7_pos) = 4"
    by code_simp+
  have k: "king_evasions c7_pos = [make_move 4 3, make_move 4 5, make_move 4 11, make_move 4 13]"
    by code_simp
  show ?thesis
    using double_check_only_king_moves[of c7_pos] h k by simp
qed

section \<open>Castling\<close>

text \<open>Claim C9. In Antichess \<^verbatim>\<open>generate_castling\<close> makes no safety scan and no Chess960
  hidden-checker test: when the right is held and not impeded, the side to move is not in
  check (the assertion of the function) and, if checks are requested, the move gives check,
  the castling move from \<^verbatim>\<open>castling_king_square\<close> to the rook square is written, whatever
  enemy pieces attack.\<close>

theorem anti_castling_no_safety_scan:
  assumes "can_castle pos Cr" "\<not> castling_impeded pos Cr" "checkers pos = 0"
    "Checks \<longrightarrow> gives_check pos
         (make_CASTLING (castling_king_square pos Cr) (castling_rook_square pos Cr))"
  shows "generate_castling ANTI_VARIANT Cr Checks Chess960 pos us =
           Inr [make_CASTLING (castling_king_square pos Cr) (castling_rook_square pos Cr)]"
  using assms by (auto simp: generate_castling_def Let_def)

theorem anti_castling_witness:
  "can_castle c9_pos WHITE_OO \<and> \<not> castling_impeded c9_pos WHITE_OO \<and> checkers c9_pos = 0
   \<and> attackers_to c9_pos 5 AND pieces_c c9_pos BLACK \<noteq> 0
   \<and> generate_castling ANTI_VARIANT WHITE_OO False False c9_pos WHITE = Inr [make_CASTLING 4 7]
   \<and> generate_castling CHESS_VARIANT WHITE_OO False False c9_pos WHITE = Inr []"
proof -
  have h: "can_castle c9_pos WHITE_OO" "\<not> castling_impeded c9_pos WHITE_OO"
    "checkers c9_pos = 0" "attackers_to c9_pos 5 AND pieces_c c9_pos BLACK \<noteq> 0"
    "castling_king_square c9_pos WHITE_OO = 4" "castling_rook_square c9_pos WHITE_OO = 7"
    by code_simp+
  have c: "generate_castling CHESS_VARIANT WHITE_OO False False c9_pos WHITE = Inr []"
    by code_simp
  show ?thesis
    using anti_castling_no_safety_scan[of c9_pos WHITE_OO False False WHITE] h c by simp
qed

lemma scan_west:
  "0 \<le> kfrom \<Longrightarrow> kfrom \<le> s \<Longrightarrow> s < 64 \<Longrightarrow>
    castling_scan V pos us kfrom WEST s
      = Inr (\<forall>t \<in> {kfrom + 1..s}. \<not> scan_attacked V pos us kfrom t)"
proof (induction "nat (s - kfrom)" arbitrary: s)
  case 0
  then have "s = kfrom" by simp
  then show ?case by (subst castling_scan.simps) simp
next
  case (Suc n)
  then have ne: "s \<noteq> kfrom" and rng: "\<not> (s < 0 \<or> 63 < s)" by auto
  have IH: "castling_scan V pos us kfrom WEST (s - 1)
      = Inr (\<forall>t \<in> {kfrom + 1..s - 1}. \<not> scan_attacked V pos us kfrom t)"
    using Suc by (intro Suc(1)) auto
  have split: "{kfrom + 1..s} = insert s {kfrom + 1..s - 1}" using Suc by auto
  show ?case
    by (subst castling_scan.simps) (use ne rng IH in \<open>auto simp: split\<close>)
qed

lemma scan_east:
  "s \<le> kfrom \<Longrightarrow> kfrom < 64 \<Longrightarrow> 0 \<le> s \<Longrightarrow>
    castling_scan V pos us kfrom EAST s
      = Inr (\<forall>t \<in> {s..kfrom - 1}. \<not> scan_attacked V pos us kfrom t)"
proof (induction "nat (kfrom - s)" arbitrary: s)
  case 0
  then have "s = kfrom" by simp
  then show ?case by (subst castling_scan.simps) simp
next
  case (Suc n)
  then have ne: "s \<noteq> kfrom" and rng: "\<not> (s < 0 \<or> 63 < s)" by auto
  have IH: "castling_scan V pos us kfrom EAST (s + 1)
      = Inr (\<forall>t \<in> {s + 1..kfrom - 1}. \<not> scan_attacked V pos us kfrom t)"
    using Suc by (intro Suc(1)) auto
  have split: "{s..kfrom - 1} = insert s {s + 1..kfrom - 1}" using Suc by auto
  show ?case
    by (subst castling_scan.simps) (use ne rng IH in \<open>auto simp: split\<close>)
qed

lemma castling_kto_on_board:
  "0 \<le> relative_square us (if KingSide then SQ_G1 else SQ_C1)
   \<and> relative_square us (if KingSide then SQ_G1 else SQ_C1) < 64"
  by (cases us) (simp_all add: relative_square_def SQ_G1_def SQ_C1_def)

lemma chess960_scan:
  assumes "0 \<le> kfrom" "kfrom < 64" "0 \<le> kto" "kto < 64"
  shows "castling_scan V pos us kfrom (scan_direction True KingSide kto kfrom) kto
           = Inr (\<forall>s \<in> set (scan_squares kto kfrom). \<not> scan_attacked V pos us kfrom s)"
  using assms
  by (auto simp: scan_direction_def scan_squares_def scan_west scan_east)

lemma generate_castling_abandoned:
  assumes "V \<noteq> ANTI_VARIANT" "can_castle pos Cr" "\<not> castling_impeded pos Cr" "checkers pos = 0"
    and "castling_scan V pos us (square_of pos KING us)
           (scan_direction c960 (Cr = WHITE_OO \<or> Cr = BLACK_OO)
              (relative_square us (if Cr = WHITE_OO \<or> Cr = BLACK_OO then SQ_G1 else SQ_C1))
              (square_of pos KING us))
           (relative_square us (if Cr = WHITE_OO \<or> Cr = BLACK_OO then SQ_G1 else SQ_C1))
         = Inr False"
  shows "generate_castling V Cr Checks c960 pos us = Inr []"
  using assms by (simp add: generate_castling_def Let_def)

text \<open>Claim C4, amended. When a Chess960 castling move is generated (outside Antichess,
  which makes no scan), with the king on the board at \<open>kfrom\<close>, the safety scan steps WEST
  when \<open>kto > kfrom\<close> and EAST otherwise; it tests exactly the squares from \<open>kto\<close> back
  toward \<open>kfrom\<close>, exclusive of \<open>kfrom\<close>, and the right is abandoned (nothing is written)
  if one of them fails the test: outside Atomic chess, if an enemy piece attacks it.\<close>

theorem chess960_scan_direction_and_squares:
  assumes "V \<noteq> ANTI_VARIANT" "can_castle pos Cr" "\<not> castling_impeded pos Cr" "checkers pos = 0"
    and "kfrom = square_of pos KING us" "0 \<le> kfrom" "kfrom < 64"
    and "KingSide = (Cr = WHITE_OO \<or> Cr = BLACK_OO)"
    and "kto = relative_square us (if KingSide then SQ_G1 else SQ_C1)"
  shows "scan_direction True KingSide kto kfrom = (if kto > kfrom then WEST else EAST)
       \<and> castling_scan V pos us kfrom (scan_direction True KingSide kto kfrom) kto
           = Inr (\<forall>s \<in> set (scan_squares kto kfrom). \<not> scan_attacked V pos us kfrom s)
       \<and> ((\<exists>s \<in> set (scan_squares kto kfrom). scan_attacked V pos us kfrom s)
            \<longrightarrow> generate_castling V Cr Checks True pos us = Inr [])
       \<and> (V \<noteq> ATOMIC_VARIANT \<longrightarrow>
            (\<forall>s. scan_attacked V pos us kfrom s
                   = (attackers_to pos s AND pieces_c pos (opp us) \<noteq> 0)))"
proof -
  have kto: "0 \<le> kto" "kto < 64"
    using castling_kto_on_board[of us KingSide] assms(9) by simp_all
  have scan: "castling_scan V pos us kfrom (scan_direction True KingSide kto kfrom) kto
           = Inr (\<forall>s \<in> set (scan_squares kto kfrom). \<not> scan_attacked V pos us kfrom s)"
    using assms(6,7) kto by (rule chess960_scan)
  have ab: "generate_castling V Cr Checks True pos us = Inr []"
    if "\<exists>s \<in> set (scan_squares kto kfrom). scan_attacked V pos us kfrom s"
  proof -
    from that scan
    have "castling_scan V pos us kfrom (scan_direction True KingSide kto kfrom) kto = Inr False"
      by simp
    with assms show ?thesis
      by (intro generate_castling_abandoned) simp_all
  qed
  show ?thesis
    using scan ab by (simp add: scan_direction_def scan_attacked_def)
qed

theorem chess960_scan_witness:
  "can_castle c4_pos WHITE_OO \<and> \<not> castling_impeded c4_pos WHITE_OO \<and> checkers c4_pos = 0
   \<and> square_of c4_pos KING WHITE = 1
   \<and> relative_square WHITE SQ_G1 = 6
   \<and> scan_squares 6 1 = [6, 5, 4, 3, 2]
   \<and> scan_attacked CHESS_VARIANT c4_pos WHITE 1 3
   \<and> scan_direction True True 6 1 = WEST
   \<and> castling_scan CHESS_VARIANT c4_pos WHITE 1 (scan_direction True True 6 1) 6 = Inr False
   \<and> generate_castling CHESS_VARIANT WHITE_OO False True c4_pos WHITE = Inr []"
proof -
  have h: "can_castle c4_pos WHITE_OO" "\<not> castling_impeded c4_pos WHITE_OO"
    "checkers c4_pos = 0" "square_of c4_pos KING WHITE = 1" "relative_square WHITE SQ_G1 = 6"
    "scan_squares 6 1 = [6, 5, 4, 3, 2]" "scan_attacked CHESS_VARIANT c4_pos WHITE 1 3"
    "scan_direction True True 6 1 = WEST"
    by code_simp+
  have a: "\<exists>s \<in> set (scan_squares 6 1). scan_attacked CHESS_VARIANT c4_pos WHITE 1 s"
    using h(6,7) by simp
  show ?thesis
    using chess960_scan_direction_and_squares[of CHESS_VARIANT c4_pos WHITE_OO 1 WHITE True 6 False]
      h a by simp
qed

text \<open>The claim as first stated (EAST when \<open>kto > kfrom\<close>) fails on the Chess960 position
  \<open>c4_pos\<close>: the king stands on b1 and castles to g1, the scan steps WEST from g1 and finds
  d1 attacked, so nothing is written; a scan stepping EAST from g1 would never reach b1 and
  would leave the board.\<close>

theorem chess960_scan_east_counterexample:
  "(6::int) > 1
   \<and> scan_direction True True 6 1 = WEST
   \<and> generate_castling CHESS_VARIANT WHITE_OO False True c4_pos WHITE = Inr []
   \<and> castling_scan CHESS_VARIANT c4_pos WHITE 1 EAST 6 = Inl OutOfBounds"
  by code_simp


section \<open>Forced capture in Antichess\<close>

lemma anti_target:
  assumes "is_anti pos" "can_capture pos"
  shows "has_square (generate_target T pos) s \<Longrightarrow> has_square (pieces_c pos (opp (side_to_move pos))) s"
  using assms by (simp add: generate_target_def Let_def)

text \<open>Claim C6, amended. In Antichess, when \<^verbatim>\<open>can_capture()\<close> holds, every move written by
  \<^verbatim>\<open>generate<CAPTURES>\<close>, \<^verbatim>\<open>generate<QUIETS>\<close> and \<^verbatim>\<open>generate<NON_EVASIONS>\<close> is a capture: its
  destination square holds an enemy piece, or it is an en-passant capture (whose
  destination is the en-passant square); no castling move and no drop is written.\<close>

theorem anti_forced_capture:
  assumes a: "is_anti pos" "can_capture pos" 
    and g: "generate T pos = Inr ms" and m: "m \<in> set ms"
  shows "type_of m \<noteq> CASTLING \<and> type_of m \<noteq> DROP
       \<and> (type_of m = ENPASSANT \<or> has_square (pieces_c pos (opp (side_to_move pos))) (to_sq m))"
proof -
  let ?us = "side_to_move pos" and ?tg = "generate_target T pos"
  have V: "variant_of pos = ANTI_VARIANT" using a by (simp add: variant_of_def)
  from g have ga: "generate_all ANTI_VARIANT ?us T pos ?tg = Inr ms"
    by (simp add: generate_def V split: if_split_asm)
  have tg: "has_square ?tg s \<Longrightarrow> has_square (pieces_c pos (opp ?us)) s" for s
    using a by (rule anti_target)
  have en: "has_square (pawn_enemies ?us T pos ?tg) s \<Longrightarrow> has_square (pieces_c pos (opp ?us)) s" for s
    using tg[of s] by (auto simp: pawn_enemies_def split: if_split_asm)
  have pe: "has_square (push_empty ANTI_VARIANT T pos ?tg) s \<Longrightarrow> has_square (pieces_c pos (opp ?us)) s" for s
    using tg[of s] by (auto simp: push_empty_def Let_def split: if_split_asm)
  have pr: "has_square (promo_empty ANTI_VARIANT T pos ?tg) s \<Longrightarrow> has_square (pieces_c pos (opp ?us)) s" for s
    using tg[of s] by (auto simp: promo_empty_def Let_def split: if_split_asm)
  from generate_all_parts[OF ga m] a
  consider "m \<in> set (pawn_pushes ANTI_VARIANT ?us T pos ?tg)"
    | "m \<in> set (pawn_promotions ANTI_VARIANT ?us T pos ?tg)"
    | caps where "pawn_captures ?us T pos ?tg = Inr caps" "m \<in> set caps"
    | Pt where "m \<in> set (generate_moves ANTI_VARIANT Pt (T = QUIET_CHECKS) pos ?us ?tg)"
    | "m \<in> set (all_drops ANTI_VARIANT ?us T pos ?tg)"
    | "m \<in> set (king_moves ANTI_VARIANT ?us T pos ?tg)"
    by blast
  then show ?thesis
  proof cases
    case 1
    from type_of_pawn_pushes[OF 1] pe[OF to_pawn_pushes[OF 1]] show ?thesis by simp
  next
    case 2
    from type_of_pawn_promotions[OF 2] to_pawn_promotions[OF 2] en pr show ?thesis by auto
  next
    case 3
    from to_pawn_captures[OF 3] en show ?thesis by auto
  next
    case 4
    from type_of_generate_moves[OF 4] tg[OF to_generate_moves[OF 4]] show ?thesis by simp
  next
    case 5
    then show ?thesis by (simp add: all_drops_def)
  next
    case 6
    from type_of_king_moves[OF 6] tg[OF to_king_moves_anti[OF 6]] show ?thesis by simp
  qed
qed

theorem anti_forced_capture_witness:
  "is_anti c6_pos \<and> can_capture c6_pos
   \<and> generate NON_EVASIONS c6_pos = Inr [make_move 36 45, make_ENPASSANT 36 43]
   \<and> has_square (pieces_c c6_pos (opp (side_to_move c6_pos))) 45
   \<and> type_of (make_ENPASSANT 36 43) = ENPASSANT"
proof -
  have h: "is_anti c6_pos" "can_capture c6_pos"
    "generate NON_EVASIONS c6_pos = Inr [make_move 36 45, make_ENPASSANT 36 43]"
    by code_simp+
  show ?thesis
    using anti_forced_capture[OF h, of "make_move 36 45"] h by simp
qed

text \<open>The claim as first stated (every destination holds an enemy piece) fails on
  \<open>c6_pos\<close>: the en-passant capture e5xd6 is written, and d6 is empty.\<close>

theorem anti_forced_capture_en_passant_counterexample:
  "is_anti c6_pos \<and> can_capture c6_pos
   \<and> generate CAPTURES c6_pos = Inr [make_move 36 45, make_ENPASSANT 36 43]
   \<and> \<not> has_square (pieces_c c6_pos (opp (side_to_move c6_pos))) (to_sq (make_ENPASSANT 36 43))"
  by code_simp

section \<open>En passant\<close>

lemma filter_none: "(\<And>x. x \<in> set xs \<Longrightarrow> \<not> P x) \<Longrightarrow> filter P xs = []"
  by (induction xs) auto

lemma filter_all: "(\<And>x. x \<in> set xs \<Longrightarrow> P x) \<Longrightarrow> filter P xs = xs"
  by (induction xs) auto

lemma pawn_captures_ep:
  assumes "T = CAPTURES \<or> T = NON_EVASIONS \<or> T = EVASIONS" "ep_square pos \<noteq> SQ_NONE"
    "rank_of (ep_square pos) = relative_rank Us RANK_6"
    "T = EVASIONS \<longrightarrow> has_square target (ep_square pos - delta (Up Us))"
  shows "pawn_captures Us T pos target =
      (if pawnsNotOn7 Us pos AND attacks_from_pawn pos (ep_square pos) (opp Us) = 0 then Inl AssertFailed
       else Inr (map (\<lambda>to. make_move (to - delta (Right Us)) to)
                   (pop_lsb_all (shift (Right Us) (pawnsNotOn7 Us pos) AND pawn_enemies Us T pos target))
               @ map (\<lambda>to. make_move (to - delta (Left Us)) to)
                   (pop_lsb_all (shift (Left Us) (pawnsNotOn7 Us pos) AND pawn_enemies Us T pos target))
               @ map (\<lambda>from. make_ENPASSANT from (ep_square pos))
                   (pop_lsb_all (pawnsNotOn7 Us pos AND attacks_from_pawn pos (ep_square pos) (opp Us)))))"
  using assms by (auto simp: pawn_captures_def Let_def has_square_def)

lemma ep_in_pawn_captures:
  assumes "pawn_captures Us T pos target = Inr caps" "m \<in> set caps" "type_of m = ENPASSANT"
  shows "ep_square pos \<noteq> SQ_NONE \<and> (T = CAPTURES \<or> T = NON_EVASIONS \<or> T = EVASIONS)
       \<and> (T = EVASIONS \<longrightarrow> has_square target (ep_square pos - delta (Up Us)))
       \<and> has_square (pawnsNotOn7 Us pos AND attacks_from_pawn pos (ep_square pos) (opp Us)) (from_sq m)"
  using assms unfolding pawn_captures_def Let_def
  by (auto simp: set_pop_lsb_all split: if_split_asm intro: has_squareI)

lemma no_ep_moves:
  assumes "generate_pawn_moves V Us T pos target = Inr ms" "m \<in> set ms" "type_of m = ENPASSANT"
  shows "ep_square pos \<noteq> SQ_NONE \<and> (T = CAPTURES \<or> T = NON_EVASIONS \<or> T = EVASIONS)
       \<and> (T = EVASIONS \<longrightarrow> has_square target (ep_square pos - delta (Up Us)))
       \<and> has_square (pawnsNotOn7 Us pos AND attacks_from_pawn pos (ep_square pos) (opp Us)) (from_sq m)"
proof -
  from assms(3) have "m \<notin> set (pawn_pushes V Us T pos target)"
    "m \<notin> set (pawn_promotions V Us T pos target)"
    by (auto dest: type_of_pawn_pushes type_of_pawn_promotions)
  with assms(1,2) obtain caps where c: "pawn_captures Us T pos target = Inr caps" "m \<in> set caps"
    unfolding generate_pawn_moves_def
    by (auto split: sum.split_asm)
  from ep_in_pawn_captures[OF c assms(3)] show ?thesis .
qed

lemma ep_moves:
  assumes "T = CAPTURES \<or> T = NON_EVASIONS \<or> T = EVASIONS" "ep_square pos \<noteq> SQ_NONE"
    "rank_of (ep_square pos) = relative_rank Us RANK_6"
    "T = EVASIONS \<longrightarrow> has_square target (ep_square pos - delta (Up Us))"
  shows "(pawnsNotOn7 Us pos AND attacks_from_pawn pos (ep_square pos) (opp Us) = 0
          \<longrightarrow> generate_pawn_moves V Us T pos target = Inl AssertFailed)
    \<and> (pawnsNotOn7 Us pos AND attacks_from_pawn pos (ep_square pos) (opp Us) \<noteq> 0
          \<longrightarrow> (\<exists>ms. generate_pawn_moves V Us T pos target = Inr ms
                 \<and> filter (\<lambda>m. type_of m = ENPASSANT) ms
                    = map (\<lambda>from. make_ENPASSANT from (ep_square pos))
                       (pop_lsb_all (pawnsNotOn7 Us pos
                                       AND attacks_from_pawn pos (ep_square pos) (opp Us)))))"
proof -
  have f1: "filter (\<lambda>m. type_of m = ENPASSANT) (pawn_pushes V Us T pos target) = []"
    by (rule filter_none) (auto dest: type_of_pawn_pushes)
  have f2: "filter (\<lambda>m. type_of m = ENPASSANT) (pawn_promotions V Us T pos target) = []"
    by (rule filter_none) (auto dest: type_of_pawn_promotions)
  show ?thesis
    unfolding generate_pawn_moves_def pawn_captures_ep[OF assms]
    by (simp add: f1 f2 filter_map o_def)
qed

text \<open>Claim C5, amended. On the position
  \<^verbatim>\<open>rnbqkbnr/p1pppppp/8/1p6/8/8/PPPPPPPP/RNBQKBNR w KQkq b6\<close>, where the en-passant square
  is set in the FEN but no white pawn attacks it, so that the position reports no
  en-passant square, \<^verbatim>\<open>generate<LEGAL>\<close> completes with every assertion holding and returns
  exactly the 20 moves below, none of kind \<^verbatim>\<open>ENPASSANT\<close>. More generally, when
  \<^verbatim>\<open>ep_square() != SQ_NONE\<close> lies on the relative sixth rank, then for the kinds \<^verbatim>\<open>CAPTURES\<close>
  and \<^verbatim>\<open>NON_EVASIONS\<close>, and for \<^verbatim>\<open>EVASIONS\<close> when the target contains the square of the
  double-pushed pawn, an en-passant move is written for each own pawn (off the seventh
  rank) attacking the en-passant square, the generator asserting that there is such a pawn
  (with none the assertion fails). No other en-passant move is ever written: none for
  \<^verbatim>\<open>QUIETS\<close> and \<^verbatim>\<open>QUIET_CHECKS\<close>, and none for \<^verbatim>\<open>EVASIONS\<close> when the target does not contain
  the square of the double-pushed pawn.\<close>

theorem en_passant_generation:
  "generate_LEGAL fen6_pos =
     Inr [make_move 8 16, make_move 9 17, make_move 10 18, make_move 11 19,
          make_move 12 20, make_move 13 21, make_move 14 22, make_move 15 23,
          make_move 8 24, make_move 9 25, make_move 10 26, make_move 11 27,
          make_move 12 28, make_move 13 29, make_move 14 30, make_move 15 31,
          make_move 1 16, make_move 1 18, make_move 6 21, make_move 6 23]
   \<and> ((T = CAPTURES \<or> T = NON_EVASIONS \<or> T = EVASIONS) \<and> ep_square pos \<noteq> SQ_NONE
        \<and> rank_of (ep_square pos) = relative_rank Us RANK_6
        \<and> (T = EVASIONS \<longrightarrow> has_square target (ep_square pos - delta (Up Us)))
      \<longrightarrow>
        (pawnsNotOn7 Us pos AND attacks_from_pawn pos (ep_square pos) (opp Us) = 0
          \<longrightarrow> generate_pawn_moves V Us T pos target = Inl AssertFailed)
      \<and> (pawnsNotOn7 Us pos AND attacks_from_pawn pos (ep_square pos) (opp Us) \<noteq> 0
          \<longrightarrow> (\<exists>ms. generate_pawn_moves V Us T pos target = Inr ms
                 \<and> filter (\<lambda>m. type_of m = ENPASSANT) ms
                    = map (\<lambda>from. make_ENPASSANT from (ep_square pos))
                       (pop_lsb_all (pawnsNotOn7 Us pos
                                       AND attacks_from_pawn pos (ep_square pos) (opp Us))))))
   \<and> (generate_pawn_moves V Us T pos target = Inr ms \<and> m \<in> set ms \<and> type_of m = ENPASSANT
      \<longrightarrow> ep_square pos \<noteq> SQ_NONE \<and> (T = CAPTURES \<or> T = NON_EVASIONS \<or> T = EVASIONS)
       \<and> (T = EVASIONS \<longrightarrow> has_square target (ep_square pos - delta (Up Us)))
       \<and> has_square (pawnsNotOn7 Us pos AND attacks_from_pawn pos (ep_square pos) (opp Us))
           (from_sq m))"
proof -
  have a: "generate_LEGAL fen6_pos =
     Inr [make_move 8 16, make_move 9 17, make_move 10 18, make_move 11 19,
          make_move 12 20, make_move 13 21, make_move 14 22, make_move 15 23,
          make_move 8 24, make_move 9 25, make_move 10 26, make_move 11 27,
          make_move 12 28, make_move 13 29, make_move 14 30, make_move 15 31,
          make_move 1 16, make_move 1 18, make_move 6 21, make_move 6 23]"
    by code_simp
  show ?thesis
    using a ep_moves[of T pos Us target V] no_ep_moves[of V Us T pos target ms m]
    by blast
qed

theorem en_passant_generation_witness:
  "ep_square c6_pos \<noteq> SQ_NONE
   \<and> rank_of (ep_square c6_pos) = relative_rank WHITE RANK_6
   \<and> pawnsNotOn7 WHITE c6_pos AND attacks_from_pawn c6_pos (ep_square c6_pos) (opp WHITE) \<noteq> 0
   \<and> generate_pawn_moves ANTI_VARIANT WHITE CAPTURES c6_pos (generate_target CAPTURES c6_pos)
       = Inr [make_move 36 45, make_ENPASSANT 36 43]
   \<and> map (\<lambda>from. make_ENPASSANT from (ep_square c6_pos))
       (pop_lsb_all (pawnsNotOn7 WHITE c6_pos
                       AND attacks_from_pawn c6_pos (ep_square c6_pos) (opp WHITE)))
       = [make_ENPASSANT 36 43]"
proof -
  have h: "ep_square c6_pos \<noteq> SQ_NONE"
    "rank_of (ep_square c6_pos) = relative_rank WHITE RANK_6"
    "pawnsNotOn7 WHITE c6_pos AND attacks_from_pawn c6_pos (ep_square c6_pos) (opp WHITE) \<noteq> 0"
    by code_simp+
  have g: "generate_pawn_moves ANTI_VARIANT WHITE CAPTURES c6_pos (generate_target CAPTURES c6_pos)
       = Inr [make_move 36 45, make_ENPASSANT 36 43]"
    by code_simp
  have e: "map (\<lambda>from. make_ENPASSANT from (ep_square c6_pos))
       (pop_lsb_all (pawnsNotOn7 WHITE c6_pos
                       AND attacks_from_pawn c6_pos (ep_square c6_pos) (opp WHITE)))
       = [make_ENPASSANT 36 43]"
    by code_simp
  show ?thesis
    using en_passant_generation[of CAPTURES c6_pos WHITE "generate_target CAPTURES c6_pos"
        ANTI_VARIANT "[make_move 36 45, make_ENPASSANT 36 43]" "make_ENPASSANT 36 43"] h g e
    by simp
qed

text \<open>The claim as first stated (an en-passant move for each own pawn attacking the
  en-passant square, whenever there is an en-passant square) fails on \<open>c5_pos\<close>: the pawn
  e5 attacks the en-passant square d6, but the check comes from the bishop and not from
  the double-pushed pawn, so \<^verbatim>\<open>generate<EVASIONS>\<close> and \<^verbatim>\<open>generate<LEGAL>\<close> write no
  en-passant move. Without the check, on \<open>c5_free_pos\<close>, \<^verbatim>\<open>generate<CAPTURES>\<close> writes the
  en-passant move and \<^verbatim>\<open>generate<QUIETS>\<close> does not.\<close>

theorem en_passant_discovered_check_counterexample:
  "ep_square c5_pos = 43
   \<and> checkers c5_pos = square_bb 58
   \<and> pawnsNotOn7 WHITE c5_pos AND attacks_from_pawn c5_pos (ep_square c5_pos) (opp WHITE)
       = square_bb 36
   \<and> generate_T EVASIONS c5_pos
       = Inr [make_move 23 14, make_move 23 15, make_move 23 22, make_move 23 31, make_move 36 44]
   \<and> generate_T LEGAL c5_pos
       = Inr [make_move 23 14, make_move 23 15, make_move 23 22, make_move 23 31, make_move 36 44]
   \<and> ep_square c5_free_pos = 43
   \<and> pawnsNotOn7 WHITE c5_free_pos
        AND attacks_from_pawn c5_free_pos (ep_square c5_free_pos) (opp WHITE) = square_bb 36
   \<and> generate_T CAPTURES c5_free_pos = Inr [make_ENPASSANT 36 43]
   \<and> generate_T QUIETS c5_free_pos
       = Inr [make_move 36 44, make_move 23 14, make_move 23 15, make_move 23 22,
              make_move 23 30, make_move 23 31]"
  by code_simp


section \<open>Drops in Crazyhouse\<close>

lemma set_legal_filter: "set (legal_filter pos v k cur ml) \<subseteq> set ml"
proof (induction pos v k cur ml rule: legal_filter.induct)
  case (1 pos validate ksq cur moveList)
  show ?case
  proof (cases "cur < length moveList")
    case False
    then show ?thesis by (subst legal_filter.simps) simp
  next
    case True
    then have ne: "moveList \<noteq> []" by auto
    have sub: "set (butlast (moveList[cur := last moveList])) \<subseteq> set moveList"
    proof
      fix x assume "x \<in> set (butlast (moveList[cur := last moveList]))"
      then have "x \<in> set (moveList[cur := last moveList])" by (rule in_set_butlastD)
      then have "x \<in> insert (last moveList) (set moveList)"
        using set_update_subset_insert by fastforce
      with ne show "x \<in> set moveList" by auto
    qed
    show ?thesis
    proof (cases "rejects pos validate ksq (moveList ! cur)")
      case r: True
      with True 1(1) sub show ?thesis
        by (subst legal_filter.simps) auto
    next
      case r: False
      with True 1(2) show ?thesis
        by (subst legal_filter.simps) auto
    qed
  qed
qed

lemma generate_LEGAL_subset:
  assumes "generate_LEGAL pos = Inr ms" "m \<in> set ms"
  shows "\<exists>ml. (if checkers pos \<noteq> 0 then generate_EVASIONS pos else generate NON_EVASIONS pos)
                = Inr ml \<and> m \<in> set ml"
proof (cases "is_variant_end pos")
  case True
  with assms show ?thesis by (simp add: generate_LEGAL_def)
next
  case False
  with assms(1) obtain ml where
    ml: "(if checkers pos \<noteq> 0 then generate_EVASIONS pos else generate NON_EVASIONS pos) = Inr ml"
    and ms: "ms = legal_filter pos (pinned_pieces pos (side_to_move pos) \<noteq> 0 \<or> is_race pos)
                    (square_of pos KING (side_to_move pos)) 0 ml"
    by (simp add: generate_LEGAL_def Let_def split: sum.split_asm)
  from assms(2) ms set_legal_filter have "m \<in> set ml" by blast
  with ml show ?thesis by blast
qed

lemma drop_generate_drops:
  "m \<in> set (generate_drops Us Pt Checks pos b) \<Longrightarrow>
     m = make_drop (to_sq m) (Us, Pt) \<and> has_square b (to_sq m)"
  by (auto simp: generate_drops_def set_pop_lsb_all make_piece_def split: if_split_asm)

lemma drop_all_drops:
  assumes "m \<in> set (all_drops V Us T pos target)"
  shows "V = CRAZYHOUSE_VARIANT \<and> T \<noteq> CAPTURES
       \<and> (\<exists>Pt. m = make_drop (to_sq m) (Us, Pt)
             \<and> (Pt = PAWN \<longrightarrow> \<not> has_square (Rank1BB OR Rank8BB) (to_sq m)))
       \<and> has_square (drop_mask Us T pos target) (to_sq m)"
  using assms unfolding all_drops_def Let_def
  by (auto split: if_split_asm dest!: drop_generate_drops)

lemma generate_all_drop:
  assumes "generate_all V Us T pos target = Inr ms" "m \<in> set ms" "type_of m = DROP"
  shows "m \<in> set (all_drops V Us T pos target)"
  using generate_all_parts[OF assms(1,2)] assms(3)
  by (auto dest: type_of_pawn_pushes type_of_pawn_promotions to_pawn_captures
      type_of_generate_moves type_of_king_moves type_of_all_castling)


lemma house_flags:
  "variant_of pos = CRAZYHOUSE_VARIANT \<Longrightarrow> \<not> is_anti pos \<and> \<not> is_atomic pos \<and> is_house pos"
  by (auto simp: variant_of_def split: if_split_asm)

lemma checkers_occupied:
  assumes "checkers pos AND NOT (pieces pos) = 0" "has_square (checkers pos) s"
  shows "has_square (pieces pos) s"
proof (rule ccontr)
  assume "\<not> has_square (pieces pos) s"
  with assms(2) have "has_square (checkers pos AND NOT (pieces pos)) s"
    using has_square_range[OF assms(2)] by simp
  with assms(1) show False by simp
qed

lemma drop_okI:
  assumes "checkers pos AND NOT (pieces pos) = 0"
    and "m \<in> set (all_drops V (side_to_move pos) T pos target)"
    and "\<not> has_square (pieces pos) (to_sq m)"
  shows "drop_ok pos m"
  using drop_all_drops[OF assms(2)] assms(3) checkers_occupied[OF assms(1), of "to_sq m"]
  by (auto simp: drop_ok_def has_square_iff_bit)

lemma non_evasion_mask:
  assumes "pieces pos = pieces_c pos WHITE OR pieces_c pos BLACK"
    "pieces_c pos WHITE AND pieces_c pos BLACK = 0"
  shows "has_square (NOT (pieces_c pos us) XOR pieces_c pos (opp us)) s
        \<longleftrightarrow> 0 \<le> s \<and> s < 64 \<and> \<not> has_square (pieces pos) s"
proof -
  have d: "\<not> (has_square (pieces_c pos WHITE) s \<and> has_square (pieces_c pos BLACK) s)"
  proof
    assume "has_square (pieces_c pos WHITE) s \<and> has_square (pieces_c pos BLACK) s"
    then have "has_square (pieces_c pos WHITE AND pieces_c pos BLACK) s" by simp
    with assms(2) show False by simp
  qed
  show ?thesis
    using d by (cases us) (auto simp: assms(1) dest: has_square_range)
qed

lemma has_square_square_bb:
  assumes "0 \<le> t" "t < 64"
  shows "has_square (square_bb t) s \<longleftrightarrow> s = t"
proof -
  have "bit (square_bb t) (nat s) \<longleftrightarrow> nat s = nat t"
    using assms by (auto simp add: square_bb_def push_bit_of_1 bit_exp_iff)
  then show ?thesis
    using assms by (auto simp only: has_square_iff_bit)
qed

lemma nonzero_has_square:
  assumes "b \<noteq> 0" shows "\<exists>s. has_square b s"
proof -
  have "\<exists>n. bit b n"
  proof (rule ccontr)
    assume "\<not> (\<exists>n. bit b n)"
    then have "b = 0" by (intro bit_word_eqI) simp
    with assms show False by simp
  qed
  then obtain n where n: "bit b n" ..
  then have "n < 64" using bit_imp_le_length[OF n] by simp
  with n have "has_square b (int n)"
    by (simp add: has_square_iff_bit)
  then show ?thesis ..
qed

lemma evasion_mask:
  assumes "c \<noteq> 0" "\<not> more_than_one c"
  shows "has_square ((bt OR square_bb (lsb c)) XOR c) s \<longleftrightarrow> has_square bt s \<and> s \<noteq> lsb c"
proof -
  from nonzero_has_square[OF assms(1)] obtain t where "has_square c t" ..
  from lsb_least[OF this] have l: "has_square c (lsb c)" by simp
  have c: "has_square c s \<longleftrightarrow> s = lsb c"
    using l single_checker[OF assms(2)] by blast
  have q: "has_square (square_bb (lsb c)) s \<longleftrightarrow> s = lsb c"
    using has_square_range[OF l] by (simp add: has_square_square_bb)
  show ?thesis unfolding has_square_simps c q by blast
qed

lemma house_evasion_target:
  assumes "variant_of pos = CRAZYHOUSE_VARIANT"
  shows "evasion_target pos =
     between_bb pos (lsb (checkers pos)) (square_of pos KING (side_to_move pos))
       OR square_bb (lsb (checkers pos))"
  using house_flags[OF assms] by (simp add: evasion_target_def Let_def)

lemma house_generate_target:
  assumes "variant_of pos = CRAZYHOUSE_VARIANT"
  shows "generate_target T pos =
     (if T = CAPTURES then pieces_c pos (opp (side_to_move pos))
      else if T = QUIETS then NOT (pieces pos)
      else if T = NON_EVASIONS then NOT (pieces_c pos (side_to_move pos)) else 0)"
  using house_flags[OF assms] by (simp add: generate_target_def Let_def)

lemma drops_generate:
  assumes V: "variant_of pos = CRAZYHOUSE_VARIANT"
    and wf: "pieces pos = pieces_c pos WHITE OR pieces_c pos BLACK"
            "pieces_c pos WHITE AND pieces_c pos BLACK = 0"
            "checkers pos AND NOT (pieces pos) = 0"
    and g: "generate T pos = Inr ms" "m \<in> set ms" "type_of m = DROP"
  shows "drop_ok pos m"
proof -
  let ?us = "side_to_move pos"
  from g(1) have T: "T = CAPTURES \<or> T = QUIETS \<or> T = NON_EVASIONS"
    and ga: "generate_all CRAZYHOUSE_VARIANT ?us T pos (generate_target T pos) = Inr ms"
    by (auto simp: generate_def V split: if_split_asm)
  from generate_all_drop[OF ga g(2,3)]
  have d: "m \<in> set (all_drops CRAZYHOUSE_VARIANT ?us T pos (generate_target T pos))" .
  from drop_all_drops[OF d]
  have nc: "T \<noteq> CAPTURES" and h: "has_square (drop_mask ?us T pos (generate_target T pos)) (to_sq m)"
    by simp_all
  have "\<not> has_square (pieces pos) (to_sq m)"
  proof (cases "T = QUIETS")
    case True
    with h show ?thesis by (simp add: drop_mask_def house_generate_target[OF V])
  next
    case False
    with T nc have "T = NON_EVASIONS" by simp
    with h non_evasion_mask[OF wf(1,2), of ?us "to_sq m"] show ?thesis
      by (simp add: drop_mask_def house_generate_target[OF V])
  qed
  with wf(3) d show ?thesis by (intro drop_okI)
qed

lemma drops_quiet_checks:
  assumes V: "variant_of pos = CRAZYHOUSE_VARIANT"
    and wf: "checkers pos AND NOT (pieces pos) = 0"
    and g: "generate_QUIET_CHECKS pos = Inr ms" "m \<in> set ms" "type_of m = DROP"
  shows "drop_ok pos m"
proof -
  let ?us = "side_to_move pos"
  from g(3) have nd: "m \<notin> set (dc_moves pos)" by (auto dest: type_of_dc_moves)
  from g(1,2) nd obtain gs where
    ga: "generate_all CRAZYHOUSE_VARIANT ?us QUIET_CHECKS pos (NOT (pieces pos)) = Inr gs"
    and mg: "m \<in> set gs"
    by (auto simp: generate_QUIET_CHECKS_def V split: if_split_asm sum.split_asm)
  from generate_all_drop[OF ga mg g(3)]
  have d: "m \<in> set (all_drops CRAZYHOUSE_VARIANT ?us QUIET_CHECKS pos (NOT (pieces pos)))" .
  from drop_all_drops[OF d] have "\<not> has_square (pieces pos) (to_sq m)"
    by (simp add: drop_mask_def)
  with wf d show ?thesis by (intro drop_okI)
qed

lemma drops_evasions:
  assumes V: "variant_of pos = CRAZYHOUSE_VARIANT"
    and wf: "checkers pos AND NOT (pieces pos) = 0"
      "between_bb pos (lsb (checkers pos)) (square_of pos KING (side_to_move pos))
         AND pieces pos = 0"
    and g: "generate_EVASIONS pos = Inr ms" "m \<in> set ms" "type_of m = DROP"
  shows "drop_ok pos m"
proof -
  let ?us = "side_to_move pos"
  let ?bt = "between_bb pos (lsb (checkers pos)) (square_of pos KING ?us)"
  from g(3) have nk: "m \<notin> set (king_evasions pos)" by (auto dest: type_of_king_evasions)
  have na: "atomic_blast pos = Inr []" using house_flags[OF V] by (simp add: atomic_blast_def)
  from g(1,2) nk na obtain gs where
    c: "checkers pos \<noteq> 0" "\<not> more_than_one (checkers pos)"
    and ga: "generate_all CRAZYHOUSE_VARIANT ?us EVASIONS pos (evasion_target pos) = Inr gs"
    and mg: "m \<in> set gs"
    by (auto simp: generate_EVASIONS_def evasions_main_def V split: if_split_asm sum.split_asm)
  from generate_all_drop[OF ga mg g(3)]
  have d: "m \<in> set (all_drops CRAZYHOUSE_VARIANT ?us EVASIONS pos (evasion_target pos))" .
  from drop_all_drops[OF d]
  have "has_square ((?bt OR square_bb (lsb (checkers pos))) XOR checkers pos) (to_sq m)"
    by (simp add: drop_mask_def house_evasion_target[OF V])
  then have b: "has_square ?bt (to_sq m)"
    by (simp only: evasion_mask[OF c])
  have "\<not> has_square (pieces pos) (to_sq m)"
  proof
    assume "has_square (pieces pos) (to_sq m)"
    with b have "has_square (?bt AND pieces pos) (to_sq m)" by simp
    with wf(2) show False by simp
  qed
  with wf(1) d show ?thesis by (intro drop_okI)
qed

text \<open>Claim C10. In Crazyhouse (on a position whose occupancy is the disjoint union of
  the two colours, whose checkers are pieces, and where the squares between the single
  checker and the king are empty) every drop written by any \<^verbatim>\<open>generate<T>\<close> lands on an
  empty square of the board, not on a checker's square, and a pawn drop is not on the first
  or eighth rank. The drop mask for \<^verbatim>\<open>EVASIONS\<close> is the blocking target without the
  checker's square, and for \<^verbatim>\<open>NON_EVASIONS\<close> the target without the enemy pieces.\<close>

theorem crazyhouse_drops_on_empty_squares:
  assumes V: "variant_of pos = CRAZYHOUSE_VARIANT"
    and wf: "pieces pos = pieces_c pos WHITE OR pieces_c pos BLACK"
            "pieces_c pos WHITE AND pieces_c pos BLACK = 0"
            "checkers pos AND NOT (pieces pos) = 0"
            "between_bb pos (lsb (checkers pos)) (square_of pos KING (side_to_move pos))
               AND pieces pos = 0"
    and g: "generate_T T pos = Inr ms" "m \<in> set ms" "type_of m = DROP"
  shows "drop_ok pos m
    \<and> (checkers pos \<noteq> 0 \<and> \<not> more_than_one (checkers pos) \<longrightarrow>
         (\<forall>s. has_square (drop_mask (side_to_move pos) EVASIONS pos (evasion_target pos)) s
               \<longleftrightarrow> has_square (evasion_target pos) s \<and> s \<noteq> lsb (checkers pos)))
    \<and> (\<forall>s. has_square (drop_mask (side_to_move pos) NON_EVASIONS pos
                           (generate_target NON_EVASIONS pos)) s
               \<longleftrightarrow> has_square (generate_target NON_EVASIONS pos) s
                    \<and> \<not> has_square (pieces_c pos (opp (side_to_move pos))) s)"
proof -
  let ?bt = "between_bb pos (lsb (checkers pos)) (square_of pos KING (side_to_move pos))"
  have ev: "drop_ok pos m" if "generate_EVASIONS pos = Inr ms'" "m \<in> set ms'" for ms'
    using drops_evasions[OF V wf(3,4) that g(3)] .
  have ne: "drop_ok pos m" if "generate T' pos = Inr ms'" "m \<in> set ms'" for ms' T'
    using drops_generate[OF V wf(1,2,3) that g(3)] .
  have 1: "drop_ok pos m"
  proof (cases "T = QUIET_CHECKS")
    case True
    with g show ?thesis by (auto simp: generate_T_def intro: drops_quiet_checks[OF V wf(3)])
  next
    case qc: False
    show ?thesis
    proof (cases "T = EVASIONS")
      case True
      with g ev show ?thesis by (auto simp: generate_T_def)
    next
      case e: False
      show ?thesis
      proof (cases "T = LEGAL")
        case False
        with qc e g ne show ?thesis by (auto simp: generate_T_def)
      next
        case True
        with g(1,2) obtain ml where
          ml: "(if checkers pos \<noteq> 0 then generate_EVASIONS pos else generate NON_EVASIONS pos) = Inr ml"
          and "m \<in> set ml"
          using generate_LEGAL_subset[of pos ms m] by (auto simp: generate_T_def)
        with ev ne show ?thesis by (auto split: if_split_asm)
      qed
    qed
  qed
  have 2: "has_square (drop_mask (side_to_move pos) EVASIONS pos (evasion_target pos)) s
               \<longleftrightarrow> has_square (evasion_target pos) s \<and> s \<noteq> lsb (checkers pos)"
    if c: "checkers pos \<noteq> 0" "\<not> more_than_one (checkers pos)" for s
  proof -
    from nonzero_has_square[OF c(1)] obtain t where "has_square (checkers pos) t" ..
    from lsb_least[OF this] have "has_square (checkers pos) (lsb (checkers pos))" by simp
    from has_square_range[OF this]
    have "has_square (square_bb (lsb (checkers pos))) s \<longleftrightarrow> s = lsb (checkers pos)"
      by (simp add: has_square_square_bb)
    then have q: "has_square (?bt OR square_bb (lsb (checkers pos))) s
        \<longleftrightarrow> has_square ?bt s \<or> s = lsb (checkers pos)"
      by simp
    have "drop_mask (side_to_move pos) EVASIONS pos (evasion_target pos)
        = (?bt OR square_bb (lsb (checkers pos))) XOR checkers pos"
      by (simp add: drop_mask_def house_evasion_target[OF V])
    then show ?thesis
      unfolding house_evasion_target[OF V] q by (simp only: evasion_mask[OF c]) blast
  qed
  have 3: "has_square (drop_mask (side_to_move pos) NON_EVASIONS pos
                           (generate_target NON_EVASIONS pos)) s
               \<longleftrightarrow> has_square (generate_target NON_EVASIONS pos) s
                    \<and> \<not> has_square (pieces_c pos (opp (side_to_move pos))) s" for s
    using non_evasion_mask[OF wf(1,2), of "side_to_move pos" s]
    by (cases "side_to_move pos")
       (auto simp: drop_mask_def house_generate_target[OF V] wf(1) dest: has_square_range)
  from 1 2 3 show ?thesis by blast
qed

theorem crazyhouse_drops_witness:
  "variant_of c10_pos = CRAZYHOUSE_VARIANT
   \<and> pieces c10_pos = pieces_c c10_pos WHITE OR pieces_c c10_pos BLACK
   \<and> pieces_c c10_pos WHITE AND pieces_c c10_pos BLACK = 0
   \<and> checkers c10_pos AND NOT (pieces c10_pos) = 0
   \<and> between_bb c10_pos (lsb (checkers c10_pos)) (square_of c10_pos KING (side_to_move c10_pos))
        AND pieces c10_pos = 0
   \<and> generate_T EVASIONS c10_pos =
       Inr [make_move 4 3, make_move 4 5, make_move 4 11, make_move 4 13,
            make_drop 12 (WHITE, PAWN), make_drop 20 (WHITE, PAWN),
            make_drop 28 (WHITE, PAWN), make_drop 36 (WHITE, PAWN),
            make_drop 44 (WHITE, PAWN), make_drop 52 (WHITE, PAWN),
            make_drop 12 (WHITE, KNIGHT), make_drop 20 (WHITE, KNIGHT),
            make_drop 28 (WHITE, KNIGHT), make_drop 36 (WHITE, KNIGHT),
            make_drop 44 (WHITE, KNIGHT), make_drop 52 (WHITE, KNIGHT)]
   \<and> drop_ok c10_pos (make_drop 12 (WHITE, PAWN))"
proof -
  have h: "variant_of c10_pos = CRAZYHOUSE_VARIANT"
    "pieces c10_pos = pieces_c c10_pos WHITE OR pieces_c c10_pos BLACK"
    "pieces_c c10_pos WHITE AND pieces_c c10_pos BLACK = 0"
    "checkers c10_pos AND NOT (pieces c10_pos) = 0"
    "between_bb c10_pos (lsb (checkers c10_pos)) (square_of c10_pos KING (side_to_move c10_pos))
        AND pieces c10_pos = 0"
    by code_simp+
  have g: "generate_T EVASIONS c10_pos =
       Inr [make_move 4 3, make_move 4 5, make_move 4 11, make_move 4 13,
            make_drop 12 (WHITE, PAWN), make_drop 20 (WHITE, PAWN),
            make_drop 28 (WHITE, PAWN), make_drop 36 (WHITE, PAWN),
            make_drop 44 (WHITE, PAWN), make_drop 52 (WHITE, PAWN),
            make_drop 12 (WHITE, KNIGHT), make_drop 20 (WHITE, KNIGHT),
            make_drop 28 (WHITE, KNIGHT), make_drop 36 (WHITE, KNIGHT),
            make_drop 44 (WHITE, KNIGHT), make_drop 52 (WHITE, KNIGHT)]"
    by code_simp
  have "drop_ok c10_pos (make_drop 12 (WHITE, PAWN))"
    using crazyhouse_drops_on_empty_squares[OF h g, of "make_drop 12 (WHITE, PAWN)"] by simp
  with h g show ?thesis by simp
qed


section \<open>Captures and quiet moves against the non-evasions\<close>

lemma mset_filter_split:
  assumes "\<And>x. x \<in> set xs \<Longrightarrow> R x \<longleftrightarrow> P x \<or> Q x"
    "\<And>x. x \<in> set xs \<Longrightarrow> \<not> (P x \<and> Q x)"
  shows "mset (filter P xs) + mset (filter Q xs) = mset (filter R xs)"
  using assms by (induction xs) auto

lemma bit_has_square: "n < 64 \<Longrightarrow> bit b n \<longleftrightarrow> has_square b (int n)"
  by (simp add: has_square_iff_bit)

lemma mset_pop_lsb_all_split:
  assumes "\<And>s. has_square x s \<longleftrightarrow> has_square a s \<or> has_square b s"
    "\<And>s. \<not> (has_square a s \<and> has_square b s)"
  shows "mset (pop_lsb_all a) + mset (pop_lsb_all b) = mset (pop_lsb_all x)"
proof -
  have "mset (filter (bit a) [0..<64]) + mset (filter (bit b) [0..<64])
      = mset (filter (bit x) [0..<64])"
    by (rule mset_filter_split) (use assms in \<open>auto simp: bit_has_square\<close>)
  then have "image_mset int (mset (filter (bit a) [0..<64]) + mset (filter (bit b) [0..<64]))
      = image_mset int (mset (filter (bit x) [0..<64]))" by simp
  then show ?thesis by (simp add: pop_lsb_all_def)
qed

lemma pop_lsb_all_cong:
  assumes "\<And>s. has_square a s \<longleftrightarrow> has_square b s"
  shows "pop_lsb_all a = pop_lsb_all b"
proof -
  have "filter (bit a) [0..<64] = filter (bit b) [0..<64]"
    by (rule filter_cong) (use assms in \<open>auto simp: bit_has_square\<close>)
  then show ?thesis by (simp add: pop_lsb_all_def)
qed

lemma pop_lsb_all_empty:
  assumes "\<And>s. \<not> has_square a s"
  shows "pop_lsb_all a = []"
proof -
  have "pop_lsb_all a = pop_lsb_all 0" by (rule pop_lsb_all_cong) (use assms in simp)
  then show ?thesis by (simp add: pop_lsb_all_def)
qed

lemma mset_concat_map_append:
  "mset (concat (map (\<lambda>x. f x @ g x) xs)) = mset (concat (map f xs)) + mset (concat (map g xs))"
  by (induction xs) auto

lemma mset_concat_map_split:
  assumes "\<And>x. x \<in> set xs \<Longrightarrow> mset (f x) + mset (g x) = mset (h x)"
  shows "mset (concat (map f xs)) + mset (concat (map g xs)) = mset (concat (map h xs))"
  using assms by (induction xs) (auto simp: algebra_simps)

lemma target_partition:
  assumes "pieces pos = pieces_c pos WHITE OR pieces_c pos BLACK"
    "pieces_c pos WHITE AND pieces_c pos BLACK = 0"
  shows "has_square (NOT (pieces_c pos us)) s
           \<longleftrightarrow> has_square (pieces_c pos (opp us)) s \<or> has_square (NOT (pieces pos)) s"
    and "\<not> (has_square (pieces_c pos (opp us)) s \<and> has_square (NOT (pieces pos)) s)"
proof -
  have d: "\<not> (has_square (pieces_c pos WHITE) s \<and> has_square (pieces_c pos BLACK) s)"
  proof
    assume "has_square (pieces_c pos WHITE) s \<and> has_square (pieces_c pos BLACK) s"
    then have "has_square (pieces_c pos WHITE AND pieces_c pos BLACK) s" by simp
    with assms(2) show False by simp
  qed
  show "has_square (NOT (pieces_c pos us)) s
           \<longleftrightarrow> has_square (pieces_c pos (opp us)) s \<or> has_square (NOT (pieces pos)) s"
    using d by (cases us) (auto simp: assms(1) dest: has_square_range)
  show "\<not> (has_square (pieces_c pos (opp us)) s \<and> has_square (NOT (pieces pos)) s)"
    by (cases us) (auto simp: assms(1))
qed

lemma relay_attacks_target:
  "has_square (relay_attacks wk pos us from target) s
     \<longleftrightarrow> has_square (relay_attacks wk pos us from (NOT 0)) s \<and> has_square target s"
  by (auto simp: relay_attacks_def Let_def dest: has_square_range)


lemma not_xor_disjoint:
  fixes a b :: bitboard
  assumes "a AND b = 0"
  shows "NOT a XOR b = NOT (a OR b)"
proof (rule bit_word_eqI)
  fix n assume "n < LENGTH(64)"
  have "\<not> (bit a n \<and> bit b n)"
  proof
    assume "bit a n \<and> bit b n"
    then have "bit (a AND b) n" by (simp add: bit_simps)
    with assms show False by simp
  qed
  then show "bit (NOT a XOR b) n = bit (NOT (a OR b)) n"
    by (auto simp: bit_simps)
qed

lemma split_targets:
  assumes "splits_evenly (variant_of pos)"
  shows "generate_target CAPTURES pos = pieces_c pos (opp (side_to_move pos))"
    "generate_target QUIETS pos = NOT (pieces pos)"
    "generate_target NON_EVASIONS pos = NOT (pieces_c pos (side_to_move pos))"
  using assms
  by (auto simp: splits_evenly_def variant_of_def generate_target_def Let_def split: if_split_asm)

lemma split_pushes:
  assumes "splits_evenly V"
  shows "pawn_pushes V us CAPTURES pos tc = []"
    "pawn_pushes V us QUIETS pos (NOT (pieces pos)) = pawn_pushes V us NON_EVASIONS pos tn"
  using assms by (simp_all add: splits_evenly_def pawn_pushes_def push_empty_def Let_def)

lemma split_make_promotions:
  assumes "V \<noteq> ANTI_VARIANT"
  shows "make_promotions V NON_EVASIONS D pos to ksq
       = make_promotions V CAPTURES D pos to ksq @ make_promotions V QUIETS D pos to ksq"
  using assms by (simp add: make_promotions_def)

lemma split_promotions:
  assumes "splits_evenly V"
  shows "mset (pawn_promotions V us CAPTURES pos (pieces_c pos (opp us)))
       + mset (pawn_promotions V us QUIETS pos (NOT (pieces pos)))
       = mset (pawn_promotions V us NON_EVASIONS pos tn)"
proof -
  have V: "V \<noteq> ANTI_VARIANT" "V \<noteq> ATOMIC_VARIANT" "V \<noteq> LOSERS_VARIANT"
    using assms by (simp_all add: splits_evenly_def)
  have e: "promo_empty V CAPTURES pos tc = NOT (pieces pos)"
    "promo_empty V QUIETS pos (NOT (pieces pos)) = NOT (pieces pos)"
    "promo_empty V NON_EVASIONS pos tn = NOT (pieces pos)" for tc
    using V by (simp_all add: promo_empty_def push_empty_def Let_def)
  have n: "pawn_enemies us CAPTURES pos (pieces_c pos (opp us)) = pieces_c pos (opp us)"
    "pawn_enemies us QUIETS pos tq = pieces_c pos (opp us)"
    "pawn_enemies us NON_EVASIONS pos tn = pieces_c pos (opp us)" for tq
    by (simp_all add: pawn_enemies_def)
  show ?thesis
    unfolding pawn_promotions_def Let_def e n
    by (simp add: split_make_promotions[OF V(1)] mset_concat_map_append)
qed

lemma split_captures:
  shows "pawn_captures us CAPTURES pos (pieces_c pos (opp us)) = pawn_captures us NON_EVASIONS pos tn"
    "pawn_captures us QUIETS pos tq = Inr []"
  by (simp_all add: pawn_captures_def pawn_enemies_def Let_def)

lemma moves_from_mask:
  "moves_from V Pt False pos us target from =
     map (\<lambda>to. make_move from to)
       (pop_lsb_all ((attacks_from pos Pt from AND target)
                      OR (if V = RELAY_VARIANT then relay_attacks True pos us from target else 0)))"
  by (simp add: moves_from_def Let_def)

lemma split_moves:
  assumes p: "\<And>s. has_square tn s \<longleftrightarrow> has_square tc s \<or> has_square tq s"
    "\<And>s. \<not> (has_square tc s \<and> has_square tq s)"
  shows "mset (generate_moves V Pt False pos us tc) + mset (generate_moves V Pt False pos us tq)
       = mset (generate_moves V Pt False pos us tn)"
  unfolding generate_moves_def
proof (rule mset_concat_map_split)
  fix f
  let ?b = "\<lambda>t. (attacks_from pos Pt f AND t)
                      OR (if V = RELAY_VARIANT then relay_attacks True pos us f t else 0)"
  have h: "has_square (?b t) s \<longleftrightarrow> has_square (?b (NOT 0)) s \<and> has_square t s" for t s
    using relay_attacks_target[of True pos us f t s]
    by (auto dest: has_square_range)
  have "mset (pop_lsb_all (?b tc)) + mset (pop_lsb_all (?b tq)) = mset (pop_lsb_all (?b tn))"
    by (rule mset_pop_lsb_all_split) (use p h in blast)+
  then have "image_mset (make_move f) (mset (pop_lsb_all (?b tc)) + mset (pop_lsb_all (?b tq)))
      = image_mset (make_move f) (mset (pop_lsb_all (?b tn)))" by simp
  then show "mset (moves_from V Pt False pos us tc f) + mset (moves_from V Pt False pos us tq f)
      = mset (moves_from V Pt False pos us tn f)"
    by (simp add: moves_from_mask)
qed

lemma split_drops:
  assumes "pieces pos = pieces_c pos WHITE OR pieces_c pos BLACK"
    "pieces_c pos WHITE AND pieces_c pos BLACK = 0"
  shows "all_drops V us CAPTURES pos tc = []"
    "all_drops V us QUIETS pos (NOT (pieces pos))
       = all_drops V us NON_EVASIONS pos (NOT (pieces_c pos us))"
proof -
  have "pieces_c pos us AND pieces_c pos (opp us) = 0"
    using assms(2) by (cases us) (simp_all add: and.commute)
  from not_xor_disjoint[OF this]
  have "NOT (pieces_c pos us) XOR pieces_c pos (opp us) = NOT (pieces pos)"
    by (cases us) (simp_all add: assms(1) or.commute)
  then show "all_drops V us QUIETS pos (NOT (pieces pos))
       = all_drops V us NON_EVASIONS pos (NOT (pieces_c pos us))"
    by (simp add: all_drops_def drop_mask_def)
  show "all_drops V us CAPTURES pos tc = []" by (simp add: all_drops_def)
qed

lemma split_castling:
  "all_castling V us CAPTURES pos = Inr []"
  "all_castling V us QUIETS pos = all_castling V us NON_EVASIONS pos"
  by (simp_all add: all_castling_def split: sum.splits)


lemma king_moves_mask:
  assumes "V \<noteq> ANTI_VARIANT" "T = CAPTURES \<or> T = QUIETS \<or> T = NON_EVASIONS"
  shows "king_moves V us T pos target =
     map (\<lambda>to. make_move (square_of pos KING us) to)
       (pop_lsb_all
         ((if V = RACE_VARIANT \<and> T = QUIETS
           then (attacks_from pos KING (square_of pos KING us) AND target)
                  AND NOT (passed_pawn_mask pos WHITE (square_of pos KING us))
           else if V = RACE_VARIANT \<and> T = CAPTURES
           then (attacks_from pos KING (square_of pos KING us) AND target)
                  OR (attacks_from pos KING (square_of pos KING us)
                        AND passed_pawn_mask pos WHITE (square_of pos KING us)
                        AND NOT (pieces pos))
           else attacks_from pos KING (square_of pos KING us) AND target)
          OR (if V = RELAY_VARIANT
              then relay_attacks False pos us (square_of pos KING us) target else 0)))"
  using assms by (auto simp: king_moves_def Let_def)

lemma split_king:
  assumes V: "V \<noteq> ANTI_VARIANT"
    and p: "\<And>s. has_square tn s \<longleftrightarrow> has_square tc s \<or> has_square (NOT (pieces pos)) s"
    "\<And>s. \<not> (has_square tc s \<and> has_square (NOT (pieces pos)) s)"
  shows "mset (king_moves V us CAPTURES pos tc) + mset (king_moves V us QUIETS pos (NOT (pieces pos)))
       = mset (king_moves V us NON_EVASIONS pos tn)"
proof -
  let ?k = "square_of pos KING us"
  let ?b = "\<lambda>T target.
         ((if V = RACE_VARIANT \<and> T = QUIETS
           then (attacks_from pos KING ?k AND target) AND NOT (passed_pawn_mask pos WHITE ?k)
           else if V = RACE_VARIANT \<and> T = CAPTURES
           then (attacks_from pos KING ?k AND target)
                  OR (attacks_from pos KING ?k AND passed_pawn_mask pos WHITE ?k AND NOT (pieces pos))
           else attacks_from pos KING ?k AND target)
          OR (if V = RELAY_VARIANT then relay_attacks False pos us ?k target else 0))"
  have r: "has_square (relay_attacks False pos us ?k t) s
     \<longleftrightarrow> has_square (relay_attacks False pos us ?k (NOT 0)) s \<and> has_square t s" for t s
    by (rule relay_attacks_target)
  have "mset (pop_lsb_all (?b CAPTURES tc)) + mset (pop_lsb_all (?b QUIETS (NOT (pieces pos))))
      = mset (pop_lsb_all (?b NON_EVASIONS tn))"
  proof (rule mset_pop_lsb_all_split)
    fix s
    show "has_square (?b NON_EVASIONS tn) s
       \<longleftrightarrow> has_square (?b CAPTURES tc) s \<or> has_square (?b QUIETS (NOT (pieces pos))) s"
      using p(1)[of s] r[of tn s] r[of tc s] r[of "NOT (pieces pos)" s]
      by (cases "V = RACE_VARIANT"; cases "V = RELAY_VARIANT") (auto dest: has_square_range)
    show "\<not> (has_square (?b CAPTURES tc) s \<and> has_square (?b QUIETS (NOT (pieces pos))) s)"
      using p(2)[of s] r[of tc s] r[of "NOT (pieces pos)" s]
      by (cases "V = RACE_VARIANT"; cases "V = RELAY_VARIANT") (auto dest: has_square_range)
  qed
  then have "image_mset (make_move ?k)
       (mset (pop_lsb_all (?b CAPTURES tc)) + mset (pop_lsb_all (?b QUIETS (NOT (pieces pos)))))
      = image_mset (make_move ?k) (mset (pop_lsb_all (?b NON_EVASIONS tn)))" by simp
  then show ?thesis
    by (simp add: king_moves_mask[OF V])
qed

lemma promotions_CAPTURES:
  assumes "V \<noteq> ANTI_VARIANT" "m \<in> set (pawn_promotions V Us CAPTURES pos target)"
  shows "promotion_type m = QUEEN"
  using assms
  by (auto simp: pawn_promotions_def make_promotions_def Let_def split: if_split_asm)

lemma promotions_QUIETS:
  assumes "V \<noteq> ANTI_VARIANT" "m \<in> set (pawn_promotions V Us QUIETS pos target)"
  shows "promotion_type m \<in> {ROOK, BISHOP, KNIGHT}"
  using assms
  by (auto simp: pawn_promotions_def make_promotions_def Let_def split: if_split_asm)

lemma generate_all_promotion:
  assumes "generate_all V Us T pos target = Inr ms" "m \<in> set ms" "type_of m = PROMOTION"
  shows "m \<in> set (pawn_promotions V Us T pos target)"
  using generate_all_parts[OF assms(1,2)] assms(3)
  by (auto dest: type_of_pawn_pushes to_pawn_captures type_of_all_drops
      type_of_generate_moves type_of_king_moves type_of_all_castling)

section \<open>Distinct moves\<close>

lemma distinct_concat_map_key:
  assumes "distinct xs" "\<And>x. x \<in> set xs \<Longrightarrow> distinct (f x)"
    "\<And>x m. x \<in> set xs \<Longrightarrow> m \<in> set (f x) \<Longrightarrow> key m = x"
  shows "distinct (concat (map f xs))"
  using assms
proof (induction xs)
  case Nil
  then show ?case by simp
next
  case (Cons a xs)
  have "set (f a) \<inter> (\<Union>x \<in> set xs. set (f x)) = {}"
  proof (rule ccontr)
    assume "set (f a) \<inter> (\<Union>x \<in> set xs. set (f x)) \<noteq> {}"
    then obtain m x where "m \<in> set (f a)" "x \<in> set xs" "m \<in> set (f x)" by auto
    with Cons.prems(3)[of a m] Cons.prems(3)[of x m] have "a = x" by simp
    with \<open>x \<in> set xs\<close> Cons.prems(1) show False by simp
  qed
  with Cons show ?case by auto
qed

lemma distinct_map_pop_lsb_all:
  assumes "inj f"
  shows "distinct (map f (pop_lsb_all b))"
  using assms distinct_pop_lsb_all[of b] by (simp add: distinct_map inj_on_def)

lemma has_square_shift:
  assumes "has_square (shift D b) s"
  shows "has_square b (s - delta D)"
proof (cases D)
  case NORTH
  with assms show ?thesis
    by (auto simp: has_square_iff_bit bit_simps nat_diff_distrib)
next
  case SOUTH
  with assms show ?thesis
    by (auto simp: has_square_iff_bit bit_simps nat_add_distrib add.commute dest: bit_imp_le_length)
next
  case NORTH_EAST
  with assms show ?thesis
    by (auto simp: has_square_iff_bit bit_simps nat_diff_distrib)
next
  case SOUTH_EAST
  with assms show ?thesis
    by (auto simp: has_square_iff_bit bit_simps nat_add_distrib add.commute dest: bit_imp_le_length)
next
  case NORTH_WEST
  with assms show ?thesis
    by (auto simp: has_square_iff_bit bit_simps nat_diff_distrib)
next
  case SOUTH_WEST
  with assms show ?thesis
    by (auto simp: has_square_iff_bit bit_simps nat_add_distrib add.commute dest: bit_imp_le_length)
qed (use assms in simp_all)


lemma pushes_from:
  assumes "m \<in> set (pawn_pushes V Us T pos target)"
  shows "type_of m = NORMAL \<and> has_square (pawnsNotOn7 Us pos) (from_sq m)
       \<and> (to_sq m - from_sq m = delta (Up Us) \<or> to_sq m - from_sq m = 2 * delta (Up Us))"
  using assms unfolding pawn_pushes_def Let_def
  by (auto simp: set_pop_lsb_all split: if_split_asm dest!: has_square_shift)

lemma inj_make_move_to: "inj (\<lambda>to. make_move (to - d) to)"
  by (auto simp: inj_on_def)

lemma delta_Up_nonzero: "delta (Up Us) \<noteq> 0"
  by (simp add: Up_def)

lemma distinct_pawn_pushes: "distinct (pawn_pushes V Us T pos target)"
proof -
  have "distinct (map (\<lambda>to. make_move (to - delta (Up Us)) to) (pop_lsb_all b1)
                @ map (\<lambda>to. make_move (to - delta (Up Us) - delta (Up Us)) to) (pop_lsb_all b2))"
    for b1 b2
    using delta_Up_nonzero[of Us]
    by (auto simp: distinct_map_pop_lsb_all inj_on_def)
  then show ?thesis
    unfolding pawn_pushes_def Let_def by (simp del: distinct_append)
qed

lemma distinct_make_promotions: "distinct (make_promotions V T D pos to ksq)"
  by (cases T) (auto simp: make_promotions_def)

lemma make_promotions_from_to:
  "m \<in> set (make_promotions V T D pos to ksq) \<Longrightarrow> to_sq m = to \<and> from_sq m = to - delta D"
  by (auto simp: make_promotions_def split: if_split_asm)

lemma distinct_promotion_group:
  "distinct (concat (map (\<lambda>to. make_promotions V T D pos to ksq) (pop_lsb_all b)))"
  by (rule distinct_concat_map_key[where key = to_sq])
     (auto simp: distinct_pop_lsb_all distinct_make_promotions dest: make_promotions_from_to)

lemma promotion_group_offset:
  "m \<in> set (concat (map (\<lambda>to. make_promotions V T D pos to ksq) (pop_lsb_all b)))
     \<Longrightarrow> to_sq m - from_sq m = delta D"
  by (auto dest!: make_promotions_from_to)

lemma pawn_directions_differ:
  "delta (Right Us) \<noteq> delta (Left Us)" "delta (Right Us) \<noteq> delta (Up Us)"
  "delta (Left Us) \<noteq> delta (Up Us)"
  "delta (Right Us) \<noteq> 2 * delta (Up Us)" "delta (Left Us) \<noteq> 2 * delta (Up Us)"
  by (simp_all add: Right_def Left_def Up_def)

lemma distinct_pawn_promotions: "distinct (pawn_promotions V Us T pos target)"
proof -
  have "distinct (concat (map (\<lambda>to. make_promotions V T (Right Us) pos to ksq) (pop_lsb_all b1))
        @ concat (map (\<lambda>to. make_promotions V T (Left Us) pos to ksq) (pop_lsb_all b2))
        @ concat (map (\<lambda>to. make_promotions V T (Up Us) pos to ksq) (pop_lsb_all b3)))"
    for b1 b2 b3 ksq
    using pawn_directions_differ[of Us]
    by (simp only: distinct_append distinct_promotion_group set_append)
       (fastforce dest!: promotion_group_offset)
  then show ?thesis
    unfolding pawn_promotions_def Let_def by (simp del: distinct_append)
qed


lemma captures_from:
  assumes "pawn_captures Us T pos target = Inr caps" "m \<in> set caps"
  shows "type_of m = ENPASSANT
       \<or> (type_of m = NORMAL \<and> has_square (pawnsNotOn7 Us pos) (from_sq m)
           \<and> (to_sq m - from_sq m = delta (Right Us) \<or> to_sq m - from_sq m = delta (Left Us)))"
  using assms unfolding pawn_captures_def Let_def
  by (auto simp: set_pop_lsb_all split: if_split_asm dest!: has_square_shift)

lemma inj_make_ENPASSANT: "inj (\<lambda>from. make_ENPASSANT from ep)"
  by (auto simp: inj_on_def)

lemma distinct_pawn_captures:
  assumes "pawn_captures Us T pos target = Inr caps"
  shows "distinct caps"
proof -
  have d: "distinct (map (\<lambda>to. make_move (to - delta (Right Us)) to) (pop_lsb_all b1)
                @ map (\<lambda>to. make_move (to - delta (Left Us)) to) (pop_lsb_all b2))" for b1 b2
    using pawn_directions_differ(1)[of Us]
    by (auto simp: distinct_map_pop_lsb_all inj_on_def)
  have e: "distinct ((map (\<lambda>to. make_move (to - delta (Right Us)) to) (pop_lsb_all b1)
                @ map (\<lambda>to. make_move (to - delta (Left Us)) to) (pop_lsb_all b2))
                @ map (\<lambda>from. make_ENPASSANT from ep) (pop_lsb_all b3))" for b1 b2 b3 ep
    using pawn_directions_differ(1)[of Us]
    by (auto simp: distinct_map_pop_lsb_all inj_on_def)
  from assms show ?thesis
    unfolding pawn_captures_def Let_def
    using d e by (auto simp del: distinct_append append_assoc split: if_split_asm)
qed

lemma moves_from_class:
  "m \<in> set (moves_from V Pt Checks pos us target f) \<Longrightarrow>
     type_of m = NORMAL \<and> from_sq m = f
     \<and> (Checks \<longrightarrow> \<not> has_square (discovered_check_candidates pos) f)"
  by (auto simp: moves_from_def Let_def has_square_def split: if_split_asm)

lemma distinct_moves_from: "distinct (moves_from V Pt Checks pos us target f)"
  by (auto simp: moves_from_def Let_def distinct_map_pop_lsb_all inj_on_def)

lemma distinct_generate_moves:
  assumes "distinct (squares pos Pt us)"
  shows "distinct (generate_moves V Pt Checks pos us target)"
  unfolding generate_moves_def
  by (rule distinct_concat_map_key[where key = from_sq])
     (auto simp: assms distinct_moves_from dest: moves_from_class)

lemma generate_moves_class:
  "m \<in> set (generate_moves V Pt Checks pos us target) \<Longrightarrow>
     type_of m = NORMAL \<and> from_sq m \<in> set (squares pos Pt us)
     \<and> (Checks \<longrightarrow> \<not> has_square (discovered_check_candidates pos) (from_sq m))"
  by (auto simp: generate_moves_def dest: moves_from_class)

lemma distinct_generate_drops: "distinct (generate_drops Us Pt Checks pos b)"
  by (auto simp: generate_drops_def distinct_map_pop_lsb_all inj_on_def)

lemma generate_drops_piece:
  "m \<in> set (generate_drops Us Pt Checks pos b) \<Longrightarrow> \<exists>to. m = make_drop to (Us, Pt)"
  by (auto simp: generate_drops_def make_piece_def split: if_split_asm)

lemma distinct_all_drops: "distinct (all_drops V Us T pos target)"
  unfolding all_drops_def Let_def
  by (auto simp: distinct_generate_drops dest!: generate_drops_piece)

lemma distinct_king_moves: "distinct (king_moves V Us T pos target)"
proof (cases "V = ANTI_VARIANT")
  case True
  have "distinct (concat (map (\<lambda>ksq. map (\<lambda>to. make_move ksq to)
                             (pop_lsb_all (attacks_from pos KING ksq AND target)))
                   (pop_lsb_all (pieces_cpt pos Us KING))))"
    by (rule distinct_concat_map_key[where key = from_sq])
       (auto simp: distinct_pop_lsb_all distinct_map_pop_lsb_all inj_on_def)
  with True show ?thesis by (simp add: king_moves_def)
next
  case False
  then show ?thesis
    by (auto simp: king_moves_def Let_def distinct_map_pop_lsb_all inj_on_def)
qed

lemma king_moves_class:
  "m \<in> set (king_moves V Us T pos target) \<Longrightarrow>
     type_of m = NORMAL
     \<and> (if V = ANTI_VARIANT then has_square (pieces_cpt pos Us KING) (from_sq m)
        else from_sq m = square_of pos KING Us \<and> T \<noteq> QUIET_CHECKS \<and> T \<noteq> EVASIONS)"
  by (auto simp: king_moves_def Let_def set_pop_lsb_all split: if_split_asm)

lemma generate_castling_right:
  assumes "generate_castling V Cr Checks c960 pos us = Inr ms" "ms \<noteq> []"
  shows "can_castle pos Cr"
  using assms unfolding generate_castling_def Let_def
  by (simp split: if_split_asm)

lemma distinct_all_castling:
  assumes "all_castling V Us T pos = Inr cs"
    "can_castle pos (MakeCastling Us KING_SIDE) \<and> can_castle pos (MakeCastling Us QUEEN_SIDE)
       \<longrightarrow> castling_rook_square pos (MakeCastling Us KING_SIDE)
            \<noteq> castling_rook_square pos (MakeCastling Us QUEEN_SIDE)"
  shows "distinct cs"
proof (cases "T \<noteq> CAPTURES \<and> T \<noteq> EVASIONS \<and> can_castle_c pos Us")
  case False
  with assms(1) show ?thesis by (auto simp: all_castling_def)
next
  case True
  with assms(1) obtain oo ooo where
    oo: "generate_castling V (MakeCastling Us KING_SIDE) (T = QUIET_CHECKS) (is_chess960 pos) pos Us = Inr oo"
    and ooo: "generate_castling V (MakeCastling Us QUEEN_SIDE) (T = QUIET_CHECKS) (is_chess960 pos) pos Us = Inr ooo"
    and cs: "cs = oo @ ooo"
    by (auto simp: all_castling_def split: sum.split_asm)
  from generate_castling_cases[OF oo] generate_castling_cases[OF ooo] assms(2)
    generate_castling_right[OF oo] generate_castling_right[OF ooo]
  show ?thesis unfolding cs by auto
qed


lemma distinct_concat_parts:
  assumes "\<And>i. i < length xss \<Longrightarrow> distinct (xss ! i)"
    "\<And>i m. i < length xss \<Longrightarrow> m \<in> set (xss ! i) \<Longrightarrow> part m = i"
  shows "distinct (concat xss)"
proof -
  have "distinct (concat (map (\<lambda>i. xss ! i) [0..<length xss]))"
    by (rule distinct_concat_map_key[where key = part]) (use assms in auto)
  then show ?thesis by (simp add: map_nth)
qed

lemma disjoint_types:
  assumes "wf_position pos" "A \<in> set piece_types" "B \<in> set piece_types" "A \<noteq> B"
    "has_square (pieces_pt pos A) s"
  shows "\<not> has_square (pieces_pt pos B) s"
proof
  assume "has_square (pieces_pt pos B) s"
  with assms(5) have "has_square (pieces_pt pos A AND pieces_pt pos B) s" by simp
  moreover from assms(1-4) have "pieces_pt pos A AND pieces_pt pos B = 0"
    unfolding wf_position_def Let_def by blast
  ultimately show False by simp
qed

lemma wf_lists:
  assumes "wf_position pos" "Pt \<in> {KNIGHT, BISHOP, ROOK, QUEEN}"
  shows "distinct (squares pos Pt (side_to_move pos))"
    "s \<in> set (squares pos Pt (side_to_move pos)) \<Longrightarrow> has_square (pieces_pt pos Pt) s"
  using assms unfolding wf_position_def Let_def pieces_cpt_def by auto

lemma part_pushes:
  assumes "m \<in> set (pawn_pushes V (side_to_move pos) T pos target)"
  shows "move_part pos m = 0"
  using pushes_from[OF assms]
  by (auto simp: move_part_def pawnsNotOn7_def pieces_cpt_def)

lemma part_promotions:
  assumes "m \<in> set (pawn_promotions V (side_to_move pos) T pos target)"
  shows "move_part pos m = 1"
  using type_of_pawn_promotions[OF assms] by (simp add: move_part_def)

lemma part_captures:
  assumes "pawn_captures (side_to_move pos) T pos target = Inr caps" "m \<in> set caps"
  shows "move_part pos m = 2"
  using captures_from[OF assms] pawn_directions_differ[of "side_to_move pos"]
  by (auto simp: move_part_def pawnsNotOn7_def pieces_cpt_def)

lemma part_moves:
  assumes wf: "wf_position pos"
    and m: "m \<in> set (generate_moves V Pt Checks pos (side_to_move pos) target)"
  shows "Pt = KNIGHT \<Longrightarrow> move_part pos m = 3" "Pt = BISHOP \<Longrightarrow> move_part pos m = 4"
    "Pt = ROOK \<Longrightarrow> move_part pos m = 5" "Pt = QUEEN \<Longrightarrow> move_part pos m = 6"
proof -
  from generate_moves_class[OF m]
  have n: "type_of m = NORMAL" and f: "from_sq m \<in> set (squares pos Pt (side_to_move pos))"
    by simp_all
  have no: "from_sq m \<notin> set (squares pos B (side_to_move pos))"
    if "Pt \<in> {KNIGHT, BISHOP, ROOK, QUEEN}" "B \<in> {KNIGHT, BISHOP, ROOK, QUEEN}" "Pt \<noteq> B" for B
  proof
    assume "from_sq m \<in> set (squares pos B (side_to_move pos))"
    from wf_lists(2)[OF wf that(2) this] wf_lists(2)[OF wf that(1) f] that
      disjoint_types[OF wf, of Pt B "from_sq m"]
    show False by (auto simp: piece_types_def)
  qed
  have np: "\<not> has_square (pieces_pt pos PAWN) (from_sq m)" if "Pt \<in> {KNIGHT, BISHOP, ROOK, QUEEN}"
    using wf_lists(2)[OF wf that f] that disjoint_types[OF wf, of Pt PAWN "from_sq m"]
    by (auto simp: piece_types_def)
  show "Pt = KNIGHT \<Longrightarrow> move_part pos m = 3"
    using n f np by (simp add: move_part_def)
  show "Pt = BISHOP \<Longrightarrow> move_part pos m = 4"
    using n f np no[of KNIGHT] by (simp add: move_part_def)
  show "Pt = ROOK \<Longrightarrow> move_part pos m = 5"
    using n f np no[of KNIGHT] no[of BISHOP] by (simp add: move_part_def)
  show "Pt = QUEEN \<Longrightarrow> move_part pos m = 6"
    using n f np no[of KNIGHT] no[of BISHOP] no[of ROOK] by (simp add: move_part_def)
qed

lemma part_drops:
  assumes "m \<in> set (all_drops V Us T pos target)"
  shows "move_part pos m = 7"
  using type_of_all_drops[OF assms] by (simp add: move_part_def)

lemma part_king_square:
  assumes wf: "wf_position pos" and k: "0 \<le> k \<and> k < 64 \<longrightarrow> has_square (pieces_pt pos KING) k"
    and m: "type_of m = NORMAL" "from_sq m = k"
  shows "move_part pos m = 8"
proof -
  have a: "\<not> has_square (pieces_pt pos B) k" if "B \<in> set piece_types" "B \<noteq> KING" for B
  proof
    assume h: "has_square (pieces_pt pos B) k"
    from has_square_range[OF h] k have "has_square (pieces_pt pos KING) k" by simp
    from disjoint_types[OF wf _ that(1) _ this] that h show False
      by (auto simp: piece_types_def)
  qed
  have b: "k \<notin> set (squares pos B (side_to_move pos))" if "B \<in> {KNIGHT, BISHOP, ROOK, QUEEN}" for B
    using wf_lists(2)[OF wf that, of k] a[of B] that by (auto simp: piece_types_def)
  show ?thesis
    using m a[of PAWN] b by (simp add: move_part_def piece_types_def)
qed

lemma part_king:
  assumes wf: "wf_position pos"
    and m: "m \<in> set (king_moves V (side_to_move pos) T pos target)"
  shows "move_part pos m = 8"
proof (cases "V = ANTI_VARIANT")
  case True
  with king_moves_class[OF m]
  have "type_of m = NORMAL" "has_square (pieces_pt pos KING) (from_sq m)"
    by (simp_all add: pieces_cpt_def)
  with part_king_square[OF wf, of "from_sq m" m] show ?thesis by simp
next
  case False
  with king_moves_class[OF m]
  have n: "type_of m = NORMAL" "from_sq m = square_of pos KING (side_to_move pos)" by simp_all
  from wf have "0 \<le> square_of pos KING (side_to_move pos) \<and> square_of pos KING (side_to_move pos) < 64
      \<longrightarrow> has_square (pieces_pt pos KING) (square_of pos KING (side_to_move pos))"
    unfolding wf_position_def Let_def by blast
  from part_king_square[OF wf this n] show ?thesis .
qed

lemma part_castling:
  assumes "all_castling V Us T pos = Inr cs" "m \<in> set cs"
  shows "move_part pos m = 9"
  using type_of_all_castling[OF assms] by (simp add: move_part_def)


lemma parts_ok_distinct:
  "parts_ok part i xss \<Longrightarrow> distinct (concat xss) \<and> (\<forall>m \<in> set (concat xss). i \<le> part m)"
proof (induction xss arbitrary: i)
  case Nil
  then show ?case by simp
next
  case (Cons xs xss)
  from Cons.prems have xs: "distinct xs" "\<forall>m \<in> set xs. part m = i"
    and r: "parts_ok part (Suc i) xss" by simp_all
  from Cons.IH[OF r] have d: "distinct (concat xss)"
    and g: "\<forall>m \<in> set (concat xss). Suc i \<le> part m" by simp_all
  have "set xs \<inter> set (concat xss) = {}"
  proof (rule ccontr)
    assume "set xs \<inter> set (concat xss) \<noteq> {}"
    then obtain m where "m \<in> set xs" "m \<in> set (concat xss)" by auto
    with xs(2) g show False by fastforce
  qed
  moreover have "\<forall>m \<in> set (concat (xs # xss)). i \<le> part m"
    using xs(2) g by (fastforce simp: Suc_le_eq)
  ultimately show ?case using xs(1) d by simp
qed

lemma generate_all_form:
  assumes "generate_all V Us T pos target = Inr ms"
  shows "\<exists>caps cs. pawn_captures Us T pos target = Inr caps
        \<and> (cs = [] \<or> all_castling V Us T pos = Inr cs)
        \<and> ms = concat [pawn_pushes V Us T pos target, pawn_promotions V Us T pos target, caps,
                       generate_moves V KNIGHT (T = QUIET_CHECKS) pos Us target,
                       generate_moves V BISHOP (T = QUIET_CHECKS) pos Us target,
                       generate_moves V ROOK (T = QUIET_CHECKS) pos Us target,
                       generate_moves V QUEEN (T = QUIET_CHECKS) pos Us target,
                       all_drops V Us T pos target, king_moves V Us T pos target, cs]"
  using assms
  by (auto simp: generate_all_def generate_pawn_moves_def Let_def split: sum.split_asm if_split_asm)

lemma distinct_generate_all:
  assumes wf: "wf_position pos"
    and g: "generate_all V (side_to_move pos) T pos target = Inr ms"
  shows "distinct ms"
proof -
  let ?us = "side_to_move pos"
  from generate_all_form[OF g] obtain caps cs where
    caps: "pawn_captures ?us T pos target = Inr caps"
    and cs: "cs = [] \<or> all_castling V ?us T pos = Inr cs"
    and ms: "ms = concat [pawn_pushes V ?us T pos target, pawn_promotions V ?us T pos target, caps,
                       generate_moves V KNIGHT (T = QUIET_CHECKS) pos ?us target,
                       generate_moves V BISHOP (T = QUIET_CHECKS) pos ?us target,
                       generate_moves V ROOK (T = QUIET_CHECKS) pos ?us target,
                       generate_moves V QUEEN (T = QUIET_CHECKS) pos ?us target,
                       all_drops V ?us T pos target, king_moves V ?us T pos target, cs]"
    by blast
  have r: "can_castle pos (MakeCastling ?us KING_SIDE) \<and> can_castle pos (MakeCastling ?us QUEEN_SIDE)
            \<longrightarrow> castling_rook_square pos (MakeCastling ?us KING_SIDE)
                  \<noteq> castling_rook_square pos (MakeCastling ?us QUEEN_SIDE)"
    using wf unfolding wf_position_def Let_def by blast
  have dcs: "distinct cs" using cs distinct_all_castling[OF _ r] by auto
  have pcs: "\<forall>m \<in> set cs. move_part pos m = 9" using cs part_castling by auto
  have "parts_ok (move_part pos) 0
          [pawn_pushes V ?us T pos target, pawn_promotions V ?us T pos target, caps,
                       generate_moves V KNIGHT (T = QUIET_CHECKS) pos ?us target,
                       generate_moves V BISHOP (T = QUIET_CHECKS) pos ?us target,
                       generate_moves V ROOK (T = QUIET_CHECKS) pos ?us target,
                       generate_moves V QUEEN (T = QUIET_CHECKS) pos ?us target,
                       all_drops V ?us T pos target, king_moves V ?us T pos target, cs]"
    using dcs pcs
    by (simp add: distinct_pawn_pushes part_pushes distinct_pawn_promotions part_promotions
        distinct_pawn_captures[OF caps] part_captures[OF caps]
        distinct_generate_moves wf_lists(1)[OF wf] part_moves[OF wf]
        distinct_all_drops part_drops distinct_king_moves part_king[OF wf] eval_nat_numeral)
  from parts_ok_distinct[OF this] ms show ?thesis by simp
qed


lemma generate_all_king_part:
  assumes wf: "wf_position pos"
    and g: "generate_all V (side_to_move pos) T pos target = Inr ms" and m: "m \<in> set ms"
    and p: "move_part pos m = 8"
  shows "m \<in> set (king_moves V (side_to_move pos) T pos target)"
  using generate_all_parts[OF g m] p part_moves[OF wf, of m V _ "T = QUIET_CHECKS" target]
  by (auto dest: part_pushes part_promotions part_captures part_drops part_castling)

lemma dc_moves_class:
  "m \<in> set (dc_moves pos) \<Longrightarrow>
     type_of m = NORMAL \<and> has_square (discovered_check_candidates pos) (from_sq m)
     \<and> type_of_piece (piece_on pos (from_sq m)) \<noteq> PAWN"
  by (auto simp: dc_moves_def Let_def set_pop_lsb_all split: if_split_asm)

lemma distinct_dc_moves: "distinct (dc_moves pos)"
  unfolding dc_moves_def
  by (rule distinct_concat_map_key[where key = from_sq])
     (auto simp: Let_def distinct_pop_lsb_all distinct_map_pop_lsb_all inj_on_def
          split: if_split_asm)

lemma wf_dc_pawn:
  assumes "wf_position pos" "has_square (discovered_check_candidates pos) s"
    "has_square (pieces_pt pos PAWN) s"
  shows "type_of_piece (piece_on pos s) = PAWN"
  using assms unfolding wf_position_def Let_def
  by (auto simp: list_all_iff set_pop_lsb_all)

lemma distinct_QUIET_CHECKS:
  assumes wf: "wf_position pos" and g: "generate_QUIET_CHECKS pos = Inr ms"
  shows "distinct ms"
proof (cases "is_anti pos \<or> is_race pos")
  case True
  with g show ?thesis by (auto simp: generate_QUIET_CHECKS_def split: if_split_asm)
next
  case False
  let ?V = "variant_of pos" and ?us = "side_to_move pos"
  from False have V: "?V \<noteq> ANTI_VARIANT" by (simp add: variant_of_def)
  from g False obtain gs where
    gs: "generate_all ?V ?us QUIET_CHECKS pos (NOT (pieces pos)) = Inr gs"
    and ms: "ms = dc_moves pos @ gs"
    by (auto simp: generate_QUIET_CHECKS_def split: if_split_asm sum.split_asm)
  have "m \<notin> set gs" if d: "m \<in> set (dc_moves pos)" for m
  proof
    assume mg: "m \<in> set gs"
    from dc_moves_class[OF d] have n: "type_of m = NORMAL"
      and dc: "has_square (discovered_check_candidates pos) (from_sq m)"
      and np: "type_of_piece (piece_on pos (from_sq m)) \<noteq> PAWN" by simp_all
    from generate_all_parts[OF gs mg]
    consider "m \<in> set (pawn_pushes ?V ?us QUIET_CHECKS pos (NOT (pieces pos)))"
      | "m \<in> set (pawn_promotions ?V ?us QUIET_CHECKS pos (NOT (pieces pos)))"
      | caps where "pawn_captures ?us QUIET_CHECKS pos (NOT (pieces pos)) = Inr caps" "m \<in> set caps"
      | Pt where "m \<in> set (generate_moves ?V Pt True pos ?us (NOT (pieces pos)))"
      | "m \<in> set (all_drops ?V ?us QUIET_CHECKS pos (NOT (pieces pos)))"
      | "m \<in> set (king_moves ?V ?us QUIET_CHECKS pos (NOT (pieces pos)))"
      | cs where "all_castling ?V ?us QUIET_CHECKS pos = Inr cs" "m \<in> set cs"
      by auto
    then show False
    proof cases
      case 1
      from pushes_from[OF 1] have "has_square (pieces_pt pos PAWN) (from_sq m)"
        by (simp add: pawnsNotOn7_def pieces_cpt_def)
      from wf_dc_pawn[OF wf dc this] np show False by simp
    next
      case 2
      from type_of_pawn_promotions[OF 2] n show False by simp
    next
      case 3
      then show False by (simp add: pawn_captures_def)
    next
      case 4
      from generate_moves_class[OF 4] dc show False by simp
    next
      case 5
      from type_of_all_drops[OF 5] n show False by simp
    next
      case 6
      from king_moves_class[OF 6] V show False by simp
    next
      case 7
      from type_of_all_castling[OF 7] n show False by simp
    qed
  qed
  with distinct_dc_moves[of pos] distinct_generate_all[OF wf gs] show ?thesis
    unfolding ms by auto
qed

lemma distinct_legal_filter:
  "distinct ml \<Longrightarrow> distinct (legal_filter pos v k cur ml)"
proof (induction pos v k cur ml rule: legal_filter.induct)
  case (1 pos validate ksq cur moveList)
  show ?case
  proof (cases "cur < length moveList")
    case False
    with 1(3) show ?thesis by (subst legal_filter.simps) simp
  next
    case True
    then have ne: "moveList \<noteq> []" by auto
    have d: "distinct (butlast (moveList[cur := last moveList]))"
    proof -
      have u: "distinct (butlast moveList)" using 1(3) by (rule distinct_butlast)
      show ?thesis
      proof (cases "cur = length moveList - 1")
        case c: True
        with ne have "moveList ! cur = last moveList" by (simp add: last_conv_nth)
        then have "moveList[cur := last moveList] = moveList"
          by (metis list_update_id)
        with u show ?thesis by simp
      next
        case c: False
        with True have lt: "cur < length (butlast moveList)" by simp
        from ne have ml: "moveList = butlast moveList @ [last moveList]" by simp
        have "(butlast moveList @ [last moveList])[cur := last moveList]
            = (butlast moveList)[cur := last moveList] @ [last moveList]"
          using lt by (rule list_update_append1)
        with ne have "moveList[cur := last moveList]
            = (butlast moveList)[cur := last moveList] @ [last moveList]"
          by simp
        then have b: "butlast (moveList[cur := last moveList])
            = (butlast moveList)[cur := last moveList]" by simp
        from 1(3) ml have "last moveList \<notin> set (butlast moveList)"
          by (metis distinct_append distinct.simps(2) disjoint_iff list.set_intros(1))
        with u show ?thesis unfolding b by (simp add: distinct_list_update)
      qed
    qed
    show ?thesis
    proof (cases "rejects pos validate ksq (moveList ! cur)")
      case r: True
      with True 1(1)[OF True r d] show ?thesis
        by (subst legal_filter.simps) simp
    next
      case r: False
      with True 1(2)[OF True r 1(3)] show ?thesis
        by (subst legal_filter.simps) simp
    qed
  qed
qed

subsection \<open>The evasions\<close>

lemma to_pawn_pushes_EVASIONS:
  "m \<in> set (pawn_pushes V Us EVASIONS pos target) \<Longrightarrow> has_square target (to_sq m)"
  unfolding pawn_pushes_def Let_def
  by (auto simp: set_pop_lsb_all split: if_split_asm)

lemma to_king_moves_plain:
  assumes "V \<noteq> RACE_VARIANT" "m \<in> set (king_moves V Us T pos target)"
  shows "has_square target (to_sq m)"
  using assms unfolding king_moves_def relay_attacks_def Let_def
  by (auto simp: set_pop_lsb_all split: if_split_asm)

lemma king_evasions_class:
  "m \<in> set (king_evasions pos) \<Longrightarrow>
     type_of m = NORMAL \<and> from_sq m = square_of pos KING (side_to_move pos)
     \<and> (is_atomic pos \<longrightarrow> \<not> has_square (pieces pos) (to_sq m))"
  by (auto simp: king_evasions_def Let_def set_pop_lsb_all split: if_split_asm)

lemma distinct_king_evasions: "distinct (king_evasions pos)"
  by (simp add: king_evasions_def Let_def distinct_map_pop_lsb_all inj_on_def)

lemma blast_target_enemy:
  "has_square (blast_target pos) s \<Longrightarrow> has_square (pieces_c pos (opp (side_to_move pos))) s"
  by (simp add: blast_target_def Let_def)

text \<open>Moves of the blast sub-pass: en passant, or onto an enemy piece.\<close>

lemma blast_to:
  assumes c: "checkers pos \<noteq> 0"
    and g: "generate_all ATOMIC_VARIANT (side_to_move pos) CAPTURES pos (blast_target pos) = Inr ms"
    and m: "m \<in> set ms"
  shows "type_of m = ENPASSANT \<or> has_square (pieces_c pos (opp (side_to_move pos))) (to_sq m)"
proof -
  let ?us = "side_to_move pos" and ?tg = "blast_target pos"
  have e: "has_square (pawn_enemies ?us CAPTURES pos ?tg) s \<Longrightarrow> has_square ?tg s" for s
    by (simp add: pawn_enemies_def)
  have pe: "has_square (promo_empty ATOMIC_VARIANT CAPTURES pos ?tg) s \<Longrightarrow> has_square ?tg s" for s
    using c by (simp add: promo_empty_def Let_def)
  from generate_all_parts[OF g m]
  consider "m \<in> set (pawn_pushes ATOMIC_VARIANT ?us CAPTURES pos ?tg)"
    | "m \<in> set (pawn_promotions ATOMIC_VARIANT ?us CAPTURES pos ?tg)"
    | caps where "pawn_captures ?us CAPTURES pos ?tg = Inr caps" "m \<in> set caps"
    | Pt where "m \<in> set (generate_moves ATOMIC_VARIANT Pt False pos ?us ?tg)"
    | "m \<in> set (all_drops ATOMIC_VARIANT ?us CAPTURES pos ?tg)"
    | "m \<in> set (king_moves ATOMIC_VARIANT ?us CAPTURES pos ?tg)"
    | cs where "all_castling ATOMIC_VARIANT ?us CAPTURES pos = Inr cs" "m \<in> set cs"
    by auto
  then have "type_of m = ENPASSANT \<or> has_square ?tg (to_sq m)"
  proof cases
    case 1
    then show ?thesis by (simp add: pawn_pushes_def)
  next
    case 2
    from to_pawn_promotions[OF 2] e pe show ?thesis by blast
  next
    case 3
    from to_pawn_captures[OF 3] e show ?thesis by blast
  next
    case 4
    from to_generate_moves[OF 4] show ?thesis by simp
  next
    case 5
    then show ?thesis by (simp add: all_drops_def)
  next
    case 6
    from to_king_moves_plain[OF _ 6] show ?thesis by simp
  next
    case 7
    then show ?thesis by (simp add: all_castling_def)
  qed
  with blast_target_enemy show ?thesis by blast
qed

text \<open>Moves of the main evasion pass: never en passant in Atomic chess, and onto the target.\<close>

lemma evasions_to:
  assumes g: "generate_all V (side_to_move pos) EVASIONS pos target = Inr ms"
    and V: "V \<noteq> ANTI_VARIANT" "V \<noteq> CRAZYHOUSE_VARIANT"
    and m: "m \<in> set ms"
  shows "(type_of m = ENPASSANT \<and> ep_square pos \<noteq> SQ_NONE
           \<and> has_square target (ep_square pos - delta (Up (side_to_move pos))))
       \<or> (type_of m \<noteq> ENPASSANT \<and> has_square target (to_sq m))"
proof -
  let ?us = "side_to_move pos"
  have e: "has_square (pawn_enemies ?us EVASIONS pos target) s \<Longrightarrow> has_square target s" for s
    by (simp add: pawn_enemies_def)
  have pe: "has_square (promo_empty V EVASIONS pos target) s \<Longrightarrow> has_square target s" for s
    by (simp add: promo_empty_def Let_def)
  from generate_all_parts[OF g m]
  consider "m \<in> set (pawn_pushes V ?us EVASIONS pos target)"
    | "m \<in> set (pawn_promotions V ?us EVASIONS pos target)"
    | caps where "pawn_captures ?us EVASIONS pos target = Inr caps" "m \<in> set caps"
    | Pt where "m \<in> set (generate_moves V Pt False pos ?us target)"
    | "m \<in> set (all_drops V ?us EVASIONS pos target)"
    | "m \<in> set (king_moves V ?us EVASIONS pos target)"
    | cs where "all_castling V ?us EVASIONS pos = Inr cs" "m \<in> set cs"
    by auto
  then show ?thesis
  proof cases
    case 1
    from to_pawn_pushes_EVASIONS[OF 1] type_of_pawn_pushes[OF 1] show ?thesis by simp
  next
    case 2
    from to_pawn_promotions[OF 2] type_of_pawn_promotions[OF 2] e pe show ?thesis by auto
  next
    case 3
    show ?thesis
    proof (cases "type_of m = ENPASSANT")
      case True
      from ep_in_pawn_captures[OF 3 True] True show ?thesis by simp
    next
      case False
      with to_pawn_captures[OF 3] e show ?thesis by auto
    qed
  next
    case 4
    from to_generate_moves[OF 4] type_of_generate_moves[OF 4] show ?thesis by simp
  next
    case 5
    with V show ?thesis by (simp add: all_drops_def)
  next
    case 6
    with V show ?thesis by (simp add: king_moves_def)
  next
    case 7
    then show ?thesis by (simp add: all_castling_def)
  qed
qed

lemma evasions_not_king_part:
  assumes wf: "wf_position pos"
    and g: "generate_all V (side_to_move pos) EVASIONS pos target = Inr ms"
    and V: "V \<noteq> ANTI_VARIANT" and m: "m \<in> set ms"
  shows "move_part pos m \<noteq> 8"
proof
  assume "move_part pos m = 8"
  from generate_all_king_part[OF wf g m this] V show False by (simp add: king_moves_def)
qed

lemma wf_atomic:
  assumes "wf_position pos" "is_atomic pos"
  shows "pieces_c pos (opp (side_to_move pos)) AND NOT (pieces pos) = 0"
    "checkers pos \<noteq> 0 \<Longrightarrow>
       between_bb pos (lsb (checkers pos)) (square_of pos KING (side_to_move pos)) AND pieces pos = 0"
    "ep_square pos \<noteq> SQ_NONE
       \<Longrightarrow> has_square (pieces pos) (ep_square pos - delta (Up (side_to_move pos)))"
  using assms unfolding wf_position_def Let_def by blast+

lemma wf_king_square:
  assumes "wf_position pos"
  shows "0 \<le> square_of pos KING (side_to_move pos) \<and> square_of pos KING (side_to_move pos) < 64
      \<longrightarrow> has_square (pieces_pt pos KING) (square_of pos KING (side_to_move pos))"
  using assms unfolding wf_position_def Let_def by blast

lemma disjoint_bb:
  assumes "a AND b = 0" "has_square a s" shows "\<not> has_square b s"
proof
  assume "has_square b s"
  with assms(2) have "has_square (a AND b) s" by simp
  with assms(1) show False by simp
qed

lemma subset_bb:
  assumes "a AND NOT b = 0" "has_square a s" shows "has_square b s"
proof (rule ccontr)
  assume "\<not> has_square b s"
  with assms(2) has_square_range[OF assms(2)] have "has_square (a AND NOT b) s" by simp
  with assms(1) show False by simp
qed


lemma king_evasions_part:
  assumes wf: "wf_position pos" and m: "m \<in> set (king_evasions pos)"
  shows "move_part pos m = 8"
  using part_king_square[OF wf wf_king_square[OF wf], of m] king_evasions_class[OF m] by simp

lemma distinct_evasions_main:
  assumes wf: "wf_position pos" and a: "\<not> is_anti pos"
    and g: "evasions_main pos = Inr em"
  shows "distinct em"
proof (cases "more_than_one (checkers pos)")
  case True
  with g show ?thesis by (auto simp: evasions_main_def distinct_king_evasions)
next
  case False
  let ?V = "variant_of pos" and ?us = "side_to_move pos"
  from a have V: "?V \<noteq> ANTI_VARIANT" by (simp add: variant_of_def)
  from g False obtain gs where
    gs: "generate_all ?V ?us EVASIONS pos (evasion_target pos) = Inr gs"
    and em: "em = king_evasions pos @ gs"
    by (auto simp: evasions_main_def split: sum.split_asm)
  have "m \<notin> set gs" if "m \<in> set (king_evasions pos)" for m
    using king_evasions_part[OF wf that] evasions_not_king_part[OF wf gs V, of m] by blast
  with distinct_king_evasions[of pos] distinct_generate_all[OF wf gs] show ?thesis
    unfolding em by auto
qed

text \<open>In Atomic chess a move of the main pass lands on an empty square and is not an
  en-passant capture.\<close>

lemma atomic_main_to:
  assumes wf: "wf_position pos" and at: "is_atomic pos" "\<not> is_anti pos"
    and c: "checkers pos \<noteq> 0"
    and g: "evasions_main pos = Inr em" and m: "m \<in> set em"
  shows "type_of m \<noteq> ENPASSANT \<and> \<not> has_square (pieces pos) (to_sq m)"
proof -
  let ?us = "side_to_move pos"
  let ?bt = "between_bb pos (lsb (checkers pos)) (square_of pos KING ?us)"
  from at have V: "variant_of pos = ATOMIC_VARIANT" by (simp add: variant_of_def)
  from at have t: "evasion_target pos = ?bt" by (simp add: evasion_target_def Let_def)
  note e = disjoint_bb[OF wf_atomic(2)[OF wf at(1) c]]
  show ?thesis
  proof (cases "m \<in> set (king_evasions pos)")
    case True
    from king_evasions_class[OF True] at show ?thesis by simp
  next
    case False
    with g m obtain gs where
      gs: "generate_all ATOMIC_VARIANT ?us EVASIONS pos ?bt = Inr gs" and mg: "m \<in> set gs"
      by (auto simp: evasions_main_def V t split: if_split_asm sum.split_asm)
    from evasions_to[OF gs _ _ mg]
    consider "ep_square pos \<noteq> SQ_NONE" "has_square ?bt (ep_square pos - delta (Up ?us))"
      | "type_of m \<noteq> ENPASSANT" "has_square ?bt (to_sq m)"
      by auto
    then show ?thesis
    proof cases
      case 1
      from e[OF 1(2)] wf_atomic(3)[OF wf at(1) 1(1)] show ?thesis by simp
    next
      case 2
      from e[OF 2(2)] 2(1) show ?thesis by simp
    qed
  qed
qed

lemma atomic_blast_to:
  assumes wf: "wf_position pos" and at: "is_atomic pos" and c: "checkers pos \<noteq> 0"
    and g: "atomic_blast pos = Inr blast" and m: "m \<in> set blast"
  shows "type_of m = ENPASSANT \<or> has_square (pieces pos) (to_sq m)"
proof -
  from g at have b: "generate_all ATOMIC_VARIANT (side_to_move pos) CAPTURES pos (blast_target pos)
        = Inr blast"
    by (simp add: atomic_blast_def)
  from blast_to[OF c b m] subset_bb[OF wf_atomic(1)[OF wf at]] show ?thesis by blast
qed

lemma distinct_atomic_blast:
  assumes wf: "wf_position pos" and g: "atomic_blast pos = Inr blast"
  shows "distinct blast"
proof (cases "is_atomic pos")
  case True
  with g have "generate_all ATOMIC_VARIANT (side_to_move pos) CAPTURES pos (blast_target pos)
        = Inr blast"
    by (simp add: atomic_blast_def)
  from distinct_generate_all[OF wf this] show ?thesis .
next
  case False
  with g show ?thesis by (simp add: atomic_blast_def)
qed

lemma passes_disjoint:
  assumes wf: "wf_position pos" and a: "\<not> is_anti pos" and c: "checkers pos \<noteq> 0"
    and b: "atomic_blast pos = Inr blast" and g: "evasions_main pos = Inr em"
  shows "set blast \<inter> set em = {}"
proof (cases "is_atomic pos")
  case False
  with b show ?thesis by (simp add: atomic_blast_def)
next
  case True
  show ?thesis
  proof (rule ccontr)
    assume "set blast \<inter> set em \<noteq> {}"
    then obtain m where mb: "m \<in> set blast" and me: "m \<in> set em" by auto
    from atomic_blast_to[OF wf True c b mb] atomic_main_to[OF wf True a c g me]
    show False by simp
  qed
qed

lemma EVASIONS_form:
  assumes "generate_EVASIONS pos = Inr ms" "\<not> is_anti pos" "\<not> is_race pos"
  shows "checkers pos \<noteq> 0 \<and> (\<exists>blast em. atomic_blast pos = Inr blast
           \<and> evasions_main pos = Inr em \<and> ms = blast @ em)"
  using assms by (auto simp: generate_EVASIONS_def split: if_split_asm sum.split_asm)

lemma distinct_EVASIONS:
  assumes wf: "wf_position pos" and g: "generate_EVASIONS pos = Inr ms"
  shows "distinct ms"
proof (cases "is_anti pos \<or> is_race pos")
  case True
  with g show ?thesis by (auto simp: generate_EVASIONS_def split: if_split_asm)
next
  case False
  with EVASIONS_form[OF g] obtain blast em where c: "checkers pos \<noteq> 0"
    and b: "atomic_blast pos = Inr blast" and e: "evasions_main pos = Inr em"
    and ms: "ms = blast @ em" by auto
  from False have a: "\<not> is_anti pos" by simp
  from distinct_atomic_blast[OF wf b] distinct_evasions_main[OF wf a e]
    passes_disjoint[OF wf a c b e]
  show ?thesis unfolding ms by simp
qed

lemma distinct_generate:
  assumes wf: "wf_position pos" and g: "generate T pos = Inr ms"
  shows "distinct ms"
proof -
  from g have "generate_all (variant_of pos) (side_to_move pos) T pos (generate_target T pos) = Inr ms"
    by (auto simp: generate_def split: if_split_asm)
  from distinct_generate_all[OF wf this] show ?thesis .
qed

lemma distinct_LEGAL:
  assumes wf: "wf_position pos" and g: "generate_LEGAL pos = Inr ms"
  shows "distinct ms"
proof (cases "is_variant_end pos")
  case True
  with g show ?thesis by (simp add: generate_LEGAL_def)
next
  case False
  with g obtain ml where
    ml: "(if checkers pos \<noteq> 0 then generate_EVASIONS pos else generate NON_EVASIONS pos) = Inr ml"
    and ms: "ms = legal_filter pos (pinned_pieces pos (side_to_move pos) \<noteq> 0 \<or> is_race pos)
                    (square_of pos KING (side_to_move pos)) 0 ml"
    by (auto simp: generate_LEGAL_def Let_def split: sum.split_asm)
  from ml have "distinct ml"
    using distinct_EVASIONS[OF wf] distinct_generate[OF wf] by (auto split: if_split_asm)
  then show ?thesis unfolding ms by (rule distinct_legal_filter)
qed

text \<open>Claim C3. On a position that keeps the invariants \<open>wf_position\<close>, the moves written
  by one call of \<^verbatim>\<open>generate<T>\<close> are pairwise distinct, for every kind \<open>T\<close>. In particular
  the moves of \<^verbatim>\<open>generate<EVASIONS>\<close> are those of the blast sub-pass (empty outside Atomic
  chess) followed by those of the main evasion pass, and no move is written by both
  passes.\<close>

theorem generated_moves_distinct:
  assumes wf: "wf_position pos" and g: "generate_T T pos = Inr ms"
  shows "distinct ms
    \<and> (T = EVASIONS \<and> \<not> is_anti pos \<and> \<not> is_race pos \<longrightarrow>
         (\<exists>blast em. atomic_blast pos = Inr blast \<and> evasions_main pos = Inr em
            \<and> ms = blast @ em \<and> set blast \<inter> set em = {}))"
proof -
  have d: "distinct ms"
    using g distinct_QUIET_CHECKS[OF wf] distinct_EVASIONS[OF wf] distinct_LEGAL[OF wf]
      distinct_generate[OF wf]
    by (auto simp: generate_T_def split: if_split_asm)
  have "\<exists>blast em. atomic_blast pos = Inr blast \<and> evasions_main pos = Inr em
            \<and> ms = blast @ em \<and> set blast \<inter> set em = {}"
    if t: "T = EVASIONS" "\<not> is_anti pos" "\<not> is_race pos"
  proof -
    from g t have e: "generate_EVASIONS pos = Inr ms" by (simp add: generate_T_def)
    from EVASIONS_form[OF e t(2,3)] obtain blast em where c: "checkers pos \<noteq> 0"
      and b: "atomic_blast pos = Inr blast" and em: "evasions_main pos = Inr em"
      and ms: "ms = blast @ em" by auto
    from passes_disjoint[OF wf t(2) c b em] b em ms show ?thesis by blast
  qed
  with d show ?thesis by blast
qed

theorem generated_moves_distinct_witness:
  "wf_position c3_pos
   \<and> generate_T EVASIONS c3_pos
       = Inr [make_move 24 51, make_move 4 3, make_move 4 5, make_move 4 11, make_move 4 13,
              make_move 18 12, make_move 18 28]
   \<and> atomic_blast c3_pos = Inr [make_move 24 51]
   \<and> evasions_main c3_pos
       = Inr [make_move 4 3, make_move 4 5, make_move 4 11, make_move 4 13,
              make_move 18 12, make_move 18 28]
   \<and> distinct [make_move 24 51, make_move 4 3, make_move 4 5, make_move 4 11, make_move 4 13,
              make_move 18 12, make_move 18 28]
   \<and> set [make_move 24 51]
       \<inter> set [make_move 4 3, make_move 4 5, make_move 4 11, make_move 4 13,
              make_move 18 12, make_move 18 28] = {}"
proof -
  have wf: "wf_position c3_pos" by code_simp
  have g: "generate_T EVASIONS c3_pos
       = Inr [make_move 24 51, make_move 4 3, make_move 4 5, make_move 4 11, make_move 4 13,
              make_move 18 12, make_move 18 28]"
    by code_simp
  have b: "atomic_blast c3_pos = Inr [make_move 24 51]" by code_simp
  have e: "evasions_main c3_pos
       = Inr [make_move 4 3, make_move 4 5, make_move 4 11, make_move 4 13,
              make_move 18 12, make_move 18 28]"
    by code_simp
  have v: "\<not> is_anti c3_pos" "\<not> is_race c3_pos" by code_simp+
  from generated_moves_distinct[OF wf g] v b e
  have "distinct [make_move 24 51, make_move 4 3, make_move 4 5, make_move 4 11, make_move 4 13,
              make_move 18 12, make_move 18 28]
     \<and> set [make_move 24 51]
       \<inter> set [make_move 4 3, make_move 4 5, make_move 4 11, make_move 4 13,
              make_move 18 12, make_move 18 28] = {}"
    by simp
  with wf g b e show ?thesis by (simp only: simp_thms)
qed

section \<open>The captures and the quiet moves partition the non-evasions\<close>

text \<open>Claim C2, amended. For every position with no checker (the assertion of the entry
  point) that keeps the invariants \<open>wf_position\<close> and whose occupancy is the disjoint union
  of the two colours, in standard chess, Crazyhouse, Horde, Racing Kings and Relay chess,
  the moves of \<^verbatim>\<open>generate<CAPTURES>\<close> followed by those of \<^verbatim>\<open>generate<QUIETS>\<close> are a disjoint,
  duplicate-free partition of the moves of \<^verbatim>\<open>generate<NON_EVASIONS>\<close>: the two lists have no
  move in common, their concatenation has no repetition, and as a multiset it is exactly
  the moves of \<^verbatim>\<open>generate<NON_EVASIONS>\<close>. Every promotion among the captures is a queen
  promotion and every promotion among the quiet moves is a rook, bishop or knight
  promotion.\<close>

theorem captures_quiets_partition:
  assumes V: "splits_evenly (variant_of pos)"
    and wf: "pieces pos = pieces_c pos WHITE OR pieces_c pos BLACK"
            "pieces_c pos WHITE AND pieces_c pos BLACK = 0"
    and wfp: "wf_position pos"
    and n: "generate NON_EVASIONS pos = Inr n"
  shows "\<exists>c q. generate CAPTURES pos = Inr c \<and> generate QUIETS pos = Inr q
           \<and> mset (c @ q) = mset n \<and> distinct (c @ q) \<and> set c \<inter> set q = {}
           \<and> (\<forall>m \<in> set c. type_of m = PROMOTION \<longrightarrow> promotion_type m = QUEEN)
           \<and> (\<forall>m \<in> set q. type_of m = PROMOTION \<longrightarrow> promotion_type m \<in> {ROOK, BISHOP, KNIGHT})"
proof -
  let ?V = "variant_of pos" and ?us = "side_to_move pos"
  let ?tc = "pieces_c pos (opp ?us)" and ?tq = "NOT (pieces pos)" and ?tn = "NOT (pieces_c pos ?us)"
  have V': "?V \<noteq> ANTI_VARIANT" "?V \<noteq> LOSERS_VARIANT"
    using V by (simp_all add: splits_evenly_def)
  have ac: "\<not> (?V = ANTI_VARIANT \<and> can_capture pos)" "\<not> (?V = LOSERS_VARIANT \<and> can_capture_losers pos)"
    using V' by simp_all
  note p = target_partition[OF wf, of ?us]
  from n have ck: "checkers pos = 0"
    and gn: "generate_all ?V ?us NON_EVASIONS pos ?tn = Inr n"
    by (auto simp: generate_def split_targets[OF V] split: if_split_asm)
  from gn obtain caps cs where
    caps: "pawn_captures ?us NON_EVASIONS pos ?tn = Inr caps"
    and cs: "all_castling ?V ?us NON_EVASIONS pos = Inr cs"
    and n_eq: "n = pawn_pushes ?V ?us NON_EVASIONS pos ?tn @ pawn_promotions ?V ?us NON_EVASIONS pos ?tn
          @ caps
          @ generate_moves ?V KNIGHT False pos ?us ?tn @ generate_moves ?V BISHOP False pos ?us ?tn
          @ generate_moves ?V ROOK False pos ?us ?tn @ generate_moves ?V QUEEN False pos ?us ?tn
          @ all_drops ?V ?us NON_EVASIONS pos ?tn @ king_moves ?V ?us NON_EVASIONS pos ?tn @ cs"
    using ac by (auto simp: generate_all_def generate_pawn_moves_def Let_def split: sum.split_asm)
  define c where "c = pawn_promotions ?V ?us CAPTURES pos ?tc @ caps
          @ generate_moves ?V KNIGHT False pos ?us ?tc @ generate_moves ?V BISHOP False pos ?us ?tc
          @ generate_moves ?V ROOK False pos ?us ?tc @ generate_moves ?V QUEEN False pos ?us ?tc
          @ king_moves ?V ?us CAPTURES pos ?tc"
  define q where "q = pawn_pushes ?V ?us NON_EVASIONS pos ?tn @ pawn_promotions ?V ?us QUIETS pos ?tq
          @ generate_moves ?V KNIGHT False pos ?us ?tq @ generate_moves ?V BISHOP False pos ?us ?tq
          @ generate_moves ?V ROOK False pos ?us ?tq @ generate_moves ?V QUEEN False pos ?us ?tq
          @ all_drops ?V ?us NON_EVASIONS pos ?tn @ king_moves ?V ?us QUIETS pos ?tq @ cs"
  have gc: "generate CAPTURES pos = Inr c"
    using ck caps
    by (simp add: V' generate_def split_targets[OF V] generate_all_def generate_pawn_moves_def Let_def
        split_pushes(1)[OF V] split_captures(1)[of ?us pos ?tn] split_drops(1)[OF wf]
        split_castling(1) c_def)
  have gq: "generate QUIETS pos = Inr q"
    using ck cs
    by (simp add: V' generate_def split_targets[OF V] generate_all_def generate_pawn_moves_def Let_def
        split_pushes(2)[OF V, of ?us pos ?tn] split_captures(2) split_drops(2)[OF wf]
        split_castling(2) q_def)
  note sp = split_promotions[OF V, of ?us pos ?tn, symmetric]
      split_moves[of ?tn ?tc ?tq ?V KNIGHT pos ?us, OF p, symmetric]
      split_moves[of ?tn ?tc ?tq ?V BISHOP pos ?us, OF p, symmetric]
      split_moves[of ?tn ?tc ?tq ?V ROOK pos ?us, OF p, symmetric]
      split_moves[of ?tn ?tc ?tq ?V QUEEN pos ?us, OF p, symmetric]
      split_king[OF V'(1), of ?tn ?tc pos ?us, OF p, symmetric]
  have ms: "mset (c @ q) = mset n"
    unfolding c_def q_def n_eq mset_append sp
    by (simp only: ac_simps)
  have pc: "promotion_type m = QUEEN" if "m \<in> set c" "type_of m = PROMOTION" for m
  proof -
    from gc have "generate_all ?V ?us CAPTURES pos ?tc = Inr c"
      using ck by (simp add: generate_def split_targets[OF V])
    from generate_all_promotion[OF this that] show ?thesis
      by (rule promotions_CAPTURES[OF V'(1)])
  qed
  have pq: "promotion_type m \<in> {ROOK, BISHOP, KNIGHT}" if "m \<in> set q" "type_of m = PROMOTION" for m
  proof -
    from gq have "generate_all ?V ?us QUIETS pos ?tq = Inr q"
      using ck by (simp add: generate_def split_targets[OF V])
    from generate_all_promotion[OF this that] show ?thesis
      by (rule promotions_QUIETS[OF V'(1)])
  qed
  from distinct_generate_all[OF wfp gn] have "distinct n" .
  with ms have d: "distinct (c @ q)" using mset_eq_imp_distinct_iff by blast
  then have "set c \<inter> set q = {}" by simp
  with d gc gq ms pc pq show ?thesis by blast
qed

theorem captures_quiets_partition_witness:
  "splits_evenly (variant_of c2_pos)
   \<and> pieces c2_pos = pieces_c c2_pos WHITE OR pieces_c c2_pos BLACK
   \<and> pieces_c c2_pos WHITE AND pieces_c c2_pos BLACK = 0
   \<and> wf_position c2_pos
   \<and> generate NON_EVASIONS c2_pos = Inr [make_PROMOTION 48 57 QUEEN, make_PROMOTION 48 57 ROOK,
       make_PROMOTION 48 57 BISHOP, make_PROMOTION 48 57 KNIGHT,
       make_PROMOTION 48 56 QUEEN, make_PROMOTION 48 56 ROOK,
       make_PROMOTION 48 56 BISHOP, make_PROMOTION 48 56 KNIGHT,
       make_move 18 1, make_move 18 3, make_move 18 8, make_move 18 12,
       make_move 18 24, make_move 18 28, make_move 18 33, make_move 18 35,
       make_move 4 3, make_move 4 5, make_move 4 11, make_move 4 12,
       make_move 4 13]
   \<and> generate CAPTURES c2_pos = Inr [make_PROMOTION 48 57 QUEEN, make_PROMOTION 48 56 QUEEN]
   \<and> generate QUIETS c2_pos = Inr [make_PROMOTION 48 57 ROOK, make_PROMOTION 48 57 BISHOP,
       make_PROMOTION 48 57 KNIGHT, make_PROMOTION 48 56 ROOK,
       make_PROMOTION 48 56 BISHOP, make_PROMOTION 48 56 KNIGHT,
       make_move 18 1, make_move 18 3, make_move 18 8, make_move 18 12,
       make_move 18 24, make_move 18 28, make_move 18 33, make_move 18 35,
       make_move 4 3, make_move 4 5, make_move 4 11, make_move 4 12,
       make_move 4 13]
   \<and> mset ([make_PROMOTION 48 57 QUEEN, make_PROMOTION 48 56 QUEEN] @ [make_PROMOTION 48 57 ROOK, make_PROMOTION 48 57 BISHOP,
       make_PROMOTION 48 57 KNIGHT, make_PROMOTION 48 56 ROOK,
       make_PROMOTION 48 56 BISHOP, make_PROMOTION 48 56 KNIGHT,
       make_move 18 1, make_move 18 3, make_move 18 8, make_move 18 12,
       make_move 18 24, make_move 18 28, make_move 18 33, make_move 18 35,
       make_move 4 3, make_move 4 5, make_move 4 11, make_move 4 12,
       make_move 4 13])
       = mset [make_PROMOTION 48 57 QUEEN, make_PROMOTION 48 57 ROOK,
       make_PROMOTION 48 57 BISHOP, make_PROMOTION 48 57 KNIGHT,
       make_PROMOTION 48 56 QUEEN, make_PROMOTION 48 56 ROOK,
       make_PROMOTION 48 56 BISHOP, make_PROMOTION 48 56 KNIGHT,
       make_move 18 1, make_move 18 3, make_move 18 8, make_move 18 12,
       make_move 18 24, make_move 18 28, make_move 18 33, make_move 18 35,
       make_move 4 3, make_move 4 5, make_move 4 11, make_move 4 12,
       make_move 4 13]
   \<and> distinct ([make_PROMOTION 48 57 QUEEN, make_PROMOTION 48 56 QUEEN] @ [make_PROMOTION 48 57 ROOK, make_PROMOTION 48 57 BISHOP,
       make_PROMOTION 48 57 KNIGHT, make_PROMOTION 48 56 ROOK,
       make_PROMOTION 48 56 BISHOP, make_PROMOTION 48 56 KNIGHT,
       make_move 18 1, make_move 18 3, make_move 18 8, make_move 18 12,
       make_move 18 24, make_move 18 28, make_move 18 33, make_move 18 35,
       make_move 4 3, make_move 4 5, make_move 4 11, make_move 4 12,
       make_move 4 13])
   \<and> set [make_PROMOTION 48 57 QUEEN, make_PROMOTION 48 56 QUEEN] \<inter> set [make_PROMOTION 48 57 ROOK, make_PROMOTION 48 57 BISHOP,
       make_PROMOTION 48 57 KNIGHT, make_PROMOTION 48 56 ROOK,
       make_PROMOTION 48 56 BISHOP, make_PROMOTION 48 56 KNIGHT,
       make_move 18 1, make_move 18 3, make_move 18 8, make_move 18 12,
       make_move 18 24, make_move 18 28, make_move 18 33, make_move 18 35,
       make_move 4 3, make_move 4 5, make_move 4 11, make_move 4 12,
       make_move 4 13] = {}"
proof -
  have h: "splits_evenly (variant_of c2_pos)"
    "pieces c2_pos = pieces_c c2_pos WHITE OR pieces_c c2_pos BLACK"
    "pieces_c c2_pos WHITE AND pieces_c c2_pos BLACK = 0"
    "wf_position c2_pos"
    by code_simp+
  have n: "generate NON_EVASIONS c2_pos = Inr [make_PROMOTION 48 57 QUEEN, make_PROMOTION 48 57 ROOK,
       make_PROMOTION 48 57 BISHOP, make_PROMOTION 48 57 KNIGHT,
       make_PROMOTION 48 56 QUEEN, make_PROMOTION 48 56 ROOK,
       make_PROMOTION 48 56 BISHOP, make_PROMOTION 48 56 KNIGHT,
       make_move 18 1, make_move 18 3, make_move 18 8, make_move 18 12,
       make_move 18 24, make_move 18 28, make_move 18 33, make_move 18 35,
       make_move 4 3, make_move 4 5, make_move 4 11, make_move 4 12,
       make_move 4 13]"
    by code_simp
  have c: "generate CAPTURES c2_pos = Inr [make_PROMOTION 48 57 QUEEN, make_PROMOTION 48 56 QUEEN]"
    by code_simp
  have q: "generate QUIETS c2_pos = Inr [make_PROMOTION 48 57 ROOK, make_PROMOTION 48 57 BISHOP,
       make_PROMOTION 48 57 KNIGHT, make_PROMOTION 48 56 ROOK,
       make_PROMOTION 48 56 BISHOP, make_PROMOTION 48 56 KNIGHT,
       make_move 18 1, make_move 18 3, make_move 18 8, make_move 18 12,
       make_move 18 24, make_move 18 28, make_move 18 33, make_move 18 35,
       make_move 4 3, make_move 4 5, make_move 4 11, make_move 4 12,
       make_move 4 13]"
    by code_simp
  from captures_quiets_partition[OF h n] c q
  have "mset ([make_PROMOTION 48 57 QUEEN, make_PROMOTION 48 56 QUEEN] @ [make_PROMOTION 48 57 ROOK, make_PROMOTION 48 57 BISHOP,
       make_PROMOTION 48 57 KNIGHT, make_PROMOTION 48 56 ROOK,
       make_PROMOTION 48 56 BISHOP, make_PROMOTION 48 56 KNIGHT,
       make_move 18 1, make_move 18 3, make_move 18 8, make_move 18 12,
       make_move 18 24, make_move 18 28, make_move 18 33, make_move 18 35,
       make_move 4 3, make_move 4 5, make_move 4 11, make_move 4 12,
       make_move 4 13])
       = mset [make_PROMOTION 48 57 QUEEN, make_PROMOTION 48 57 ROOK,
       make_PROMOTION 48 57 BISHOP, make_PROMOTION 48 57 KNIGHT,
       make_PROMOTION 48 56 QUEEN, make_PROMOTION 48 56 ROOK,
       make_PROMOTION 48 56 BISHOP, make_PROMOTION 48 56 KNIGHT,
       make_move 18 1, make_move 18 3, make_move 18 8, make_move 18 12,
       make_move 18 24, make_move 18 28, make_move 18 33, make_move 18 35,
       make_move 4 3, make_move 4 5, make_move 4 11, make_move 4 12,
       make_move 4 13]
   \<and> distinct ([make_PROMOTION 48 57 QUEEN, make_PROMOTION 48 56 QUEEN] @ [make_PROMOTION 48 57 ROOK, make_PROMOTION 48 57 BISHOP,
       make_PROMOTION 48 57 KNIGHT, make_PROMOTION 48 56 ROOK,
       make_PROMOTION 48 56 BISHOP, make_PROMOTION 48 56 KNIGHT,
       make_move 18 1, make_move 18 3, make_move 18 8, make_move 18 12,
       make_move 18 24, make_move 18 28, make_move 18 33, make_move 18 35,
       make_move 4 3, make_move 4 5, make_move 4 11, make_move 4 12,
       make_move 4 13])
   \<and> set [make_PROMOTION 48 57 QUEEN, make_PROMOTION 48 56 QUEEN] \<inter> set [make_PROMOTION 48 57 ROOK, make_PROMOTION 48 57 BISHOP,
       make_PROMOTION 48 57 KNIGHT, make_PROMOTION 48 56 ROOK,
       make_PROMOTION 48 56 BISHOP, make_PROMOTION 48 56 KNIGHT,
       make_move 18 1, make_move 18 3, make_move 18 8, make_move 18 12,
       make_move 18 24, make_move 18 28, make_move 18 33, make_move 18 35,
       make_move 4 3, make_move 4 5, make_move 4 11, make_move 4 12,
       make_move 4 13] = {}"
    by auto
  with h n c q show ?thesis by (simp only: simp_thms)
qed

text \<open>The claim as first stated (every variant) fails in Antichess, Atomic chess and Losers
  chess. On \<open>c2_anti_pos\<close> the capturing promotions a7xb8 are written by both
  \<^verbatim>\<open>generate<CAPTURES>\<close> and \<^verbatim>\<open>generate<QUIETS>\<close>; on \<open>c2_atomic_pos\<close> the capture Kxd2 next to
  the own king is a non-evasion but not among the captures; on \<open>c2_losers_pos\<close> the queen
  promotion a7-a8 is a non-evasion but neither among the captures nor among the quiet
  moves.\<close>

theorem captures_quiets_partition_counterexample:
  "checkers c2_anti_pos = 0
   \<and> generate CAPTURES c2_anti_pos = Inr [make_PROMOTION 48 57 QUEEN, make_PROMOTION 48 57 ROOK,
       make_PROMOTION 48 57 BISHOP, make_PROMOTION 48 57 KNIGHT,
       make_PROMOTION 48 57 KING]
   \<and> generate QUIETS c2_anti_pos = Inr [make_PROMOTION 48 57 QUEEN, make_PROMOTION 48 57 ROOK,
       make_PROMOTION 48 57 BISHOP, make_PROMOTION 48 57 KNIGHT,
       make_PROMOTION 48 57 KING]
   \<and> generate NON_EVASIONS c2_anti_pos = Inr [make_PROMOTION 48 57 QUEEN, make_PROMOTION 48 57 ROOK,
       make_PROMOTION 48 57 BISHOP, make_PROMOTION 48 57 KNIGHT,
       make_PROMOTION 48 57 KING]
   \<and> checkers c2_atomic_pos = 0
   \<and> generate CAPTURES c2_atomic_pos = Inr []
   \<and> generate QUIETS c2_atomic_pos
        = Inr [make_move 4 3, make_move 4 5, make_move 4 12, make_move 4 13]
   \<and> generate NON_EVASIONS c2_atomic_pos
        = Inr [make_move 4 3, make_move 4 5, make_move 4 11, make_move 4 12, make_move 4 13]
   \<and> checkers c2_losers_pos = 0
   \<and> generate CAPTURES c2_losers_pos = Inr []
   \<and> generate QUIETS c2_losers_pos
        = Inr [make_PROMOTION 48 56 ROOK, make_PROMOTION 48 56 BISHOP,
               make_PROMOTION 48 56 KNIGHT, make_move 4 3, make_move 4 5,
               make_move 4 11, make_move 4 12, make_move 4 13]
   \<and> generate NON_EVASIONS c2_losers_pos
        = Inr [make_PROMOTION 48 56 QUEEN, make_PROMOTION 48 56 ROOK,
               make_PROMOTION 48 56 BISHOP, make_PROMOTION 48 56 KNIGHT,
               make_move 4 3, make_move 4 5, make_move 4 11, make_move 4 12, make_move 4 13]"
  by code_simp

end
